theory Spec2Isabelle
  imports Complex_Main "HOL-Library.Word" "HOL-Library.Multiset"
begin

section \<open>JavaScript values\<close>

text \<open>
  A JavaScript string is a sequence of 16-bit UTF-16 code units; \<open>length\<close>, \<open>includes\<close>,
  \<open>charCodeAt\<close> and the regular expressions of the sources (none of which carries the
  \<open>u\<close> flag) all work on code units. A \<open>Uint8Array\<close> is a list of bytes.
  \<open>js\<close> writes an ASCII literal of the sources as a JavaScript string.
\<close>

type_synonym jsstring = "16 word list"
type_synonym bytes = "8 word list"

definition js :: "string \<Rightarrow> jsstring" where
  "js s = map (\<lambda>c. of_nat (of_char c)) s"

text \<open>\<open>String.prototype.includes\<close>: the argument occurs as a contiguous run of code units.\<close>

fun startsWith :: "'a list \<Rightarrow> 'a list \<Rightarrow> bool" where
  "startsWith s [] = True"
| "startsWith [] (p # ps) = False"
| "startsWith (x # xs) (p # ps) = (x = p \<and> startsWith xs ps)"

fun str_includes :: "'a list \<Rightarrow> 'a list \<Rightarrow> bool" where
  "str_includes [] pat = (pat = [])"
| "str_includes (x # xs) pat = (startsWith (x # xs) pat \<or> str_includes xs pat)"

text \<open>
  What the sources and the browser functions they call can throw:
  \<^item> \<open>InvalidCharacterError\<close>: \<open>atob\<close> on text that is not base64;
  \<^item> \<open>OperationError\<close>: \<open>crypto.subtle.decrypt\<close> rejecting (wrong key, altered or
    truncated ciphertext);
  \<^item> \<open>SyntaxError\<close>: \<open>JSON.parse\<close> on text that is not JSON;
  \<^item> \<open>DecryptFailed\<close>: the \<open>Error\<close> that \<open>getPasswords\<close> throws itself, whose message
    reads "failed to decrypt the data";
  \<^item> \<open>NoCharacterClass\<close>: the \<open>Error\<close> that \<open>generatePassword\<close> throws itself, whose
    message reads "select at least one kind of character";
  \<^item> \<open>QuotaExceededError\<close>: \<open>crypto.getRandomValues\<close> on an array of more than 65536
    bytes;
  \<^item> \<open>RangeError\<close>: a call with more arguments than the engine accepts, which the spread
    \<open>String.fromCharCode(...combined)\<close> makes for a long array.
\<close>

datatype error =
  InvalidCharacterError | OperationError | SyntaxError
  | DecryptFailed | NoCharacterClass | QuotaExceededError | RangeError

section \<open>The platform\<close>

text \<open>
  The sources call into the browser for key derivation (PBKDF2 with SHA-256, 100000
  rounds, 256-bit key), for AES-GCM, for JSON and for Unicode lower-casing. None of these
  is code of the repository, and their algorithms and tables are not embedded here: they
  are the fields of a \<open>platform\<close>, and the theorems below hold for every platform unless
  they say otherwise.
  \<^item> \<open>pbkdf2 password salt\<close> is the key that \<open>crypto.subtle.deriveKey\<close> derives;
  \<^item> \<open>gcm_encrypt key iv plaintext\<close> is the result of \<open>crypto.subtle.encrypt\<close>, the
    ciphertext with its tag;
  \<^item> \<open>gcm_decrypt key iv ciphertext\<close> is the result of \<open>crypto.subtle.decrypt\<close>, or
    \<open>None\<close> where it rejects;
  \<^item> \<open>JSON_stringify\<close> and \<open>JSON_parse\<close> are \<open>JSON.stringify\<close> and \<open>JSON.parse\<close> on
    arrays of entries (the type \<open>'e\<close>); \<open>JSON_parse\<close> is \<open>None\<close> where it throws;
  \<^item> \<open>toLowerCase\<close> is \<open>String.prototype.toLowerCase\<close>;
  \<^item> \<open>argument_limit\<close> is the largest number of arguments that the engine accepts in
    one call. The language sets no such number and every engine has one: a fixed count in
    some, what the stack can hold in others. The model takes it as one number for each
    platform.
\<close>

record 'e platform =
  pbkdf2 :: "bytes \<Rightarrow> bytes \<Rightarrow> bytes"
  gcm_encrypt :: "bytes \<Rightarrow> bytes \<Rightarrow> bytes \<Rightarrow> bytes"
  gcm_decrypt :: "bytes \<Rightarrow> bytes \<Rightarrow> bytes \<Rightarrow> bytes option"
  JSON_stringify :: "'e list \<Rightarrow> jsstring"
  JSON_parse :: "jsstring \<Rightarrow> 'e list option"
  toLowerCase :: "jsstring \<Rightarrow> jsstring"
  argument_limit :: nat

section \<open>Text encodings of the platform\<close>

subsection \<open>UTF-8: TextEncoder and TextDecoder\<close>

text \<open>
  \<open>new TextEncoder().encode(s)\<close> first reads \<open>s\<close> as a sequence of Unicode scalar
  values: a high surrogate followed by a low surrogate is one supplementary code point,
  and any other surrogate code unit is replaced by U+FFFD. It then writes each scalar value
  in UTF-8.
\<close>

definition high_surrogate :: "16 word \<Rightarrow> bool" where
  "high_surrogate c = (0xD800 \<le> c \<and> c \<le> 0xDBFF)"

definition low_surrogate :: "16 word \<Rightarrow> bool" where
  "low_surrogate c = (0xDC00 \<le> c \<and> c \<le> 0xDFFF)"

fun scalar_values :: "jsstring \<Rightarrow> nat list" where
  "scalar_values [] = []"
| "scalar_values [c] = [if high_surrogate c \<or> low_surrogate c then 0xFFFD else unat c]"
| "scalar_values (c # d # s) =
     (if high_surrogate c \<and> low_surrogate d
      then (0x10000 + (unat c - 0xD800) * 0x400 + (unat d - 0xDC00)) # scalar_values s
      else (if high_surrogate c \<or> low_surrogate c then 0xFFFD else unat c)
           # scalar_values (d # s))"

text \<open>A Unicode scalar value: a code point that is not a surrogate.\<close>

definition scalar_value :: "nat \<Rightarrow> bool" where
  "scalar_value cp = (cp < 0xD800 \<or> (0xE000 \<le> cp \<and> cp < 0x110000))"

definition utf8_bytes :: "nat \<Rightarrow> nat list" where
  "utf8_bytes cp =
     (if cp < 0x80 then [cp]
      else if cp < 0x800 then [0xC0 + cp div 0x40, 0x80 + cp mod 0x40]
      else if cp < 0x10000 then
        [0xE0 + cp div 0x1000, 0x80 + cp div 0x40 mod 0x40, 0x80 + cp mod 0x40]
      else
        [0xF0 + cp div 0x40000, 0x80 + cp div 0x1000 mod 0x40,
         0x80 + cp div 0x40 mod 0x40, 0x80 + cp mod 0x40])"

definition TextEncoder_encode :: "jsstring \<Rightarrow> bytes" where
  "TextEncoder_encode s = map of_nat (concat (map utf8_bytes (scalar_values s)))"

text \<open>
  The UTF-8 decoder of the Encoding Standard, which \<open>new TextDecoder().decode\<close> runs in
  its replacement mode: the arguments are its variables \<open>code point\<close>, \<open>bytes seen\<close>,
  \<open>bytes needed\<close>, \<open>lower boundary\<close> and \<open>upper boundary\<close>, and the bytes still to
  read. A malformed sequence yields U+FFFD, and the byte that broke it is read again.
  (\<open>b mod 0x40\<close> is the standard's \<open>b & 0x3F\<close>, and so on.)
\<close>

function utf8_decode :: "nat \<Rightarrow> nat \<Rightarrow> nat \<Rightarrow> nat \<Rightarrow> nat \<Rightarrow> nat list \<Rightarrow> nat list" where
  "utf8_decode cp seen needed lo up [] = (if needed \<noteq> 0 then [0xFFFD] else [])"
| "utf8_decode cp seen needed lo up (b # bs) =
     (if needed = 0 then
        (if b \<le> 0x7F then b # utf8_decode 0 0 0 0x80 0xBF bs
         else if 0xC2 \<le> b \<and> b \<le> 0xDF then utf8_decode (b mod 0x20) 0 1 0x80 0xBF bs
         else if 0xE0 \<le> b \<and> b \<le> 0xEF then
           utf8_decode (b mod 0x10) 0 2
             (if b = 0xE0 then 0xA0 else 0x80) (if b = 0xED then 0x9F else 0xBF) bs
         else if 0xF0 \<le> b \<and> b \<le> 0xF4 then
           utf8_decode (b mod 0x08) 0 3
             (if b = 0xF0 then 0x90 else 0x80) (if b = 0xF4 then 0x8F else 0xBF) bs
         else 0xFFFD # utf8_decode 0 0 0 0x80 0xBF bs)
      else if \<not> (lo \<le> b \<and> b \<le> up) then 0xFFFD # utf8_decode 0 0 0 0x80 0xBF (b # bs)
      else if seen + 1 \<noteq> needed then
        utf8_decode (cp * 0x40 + b mod 0x40) (seen + 1) needed 0x80 0xBF bs
      else (cp * 0x40 + b mod 0x40) # utf8_decode 0 0 0 0x80 0xBF bs)"
  by pat_completeness auto
termination
  by (relation "measure (\<lambda>(cp, seen, needed, lo, up, bs).
                  2 * length bs + (if needed = 0 then 0 else 1))") auto

definition utf16_units :: "nat \<Rightarrow> jsstring" where
  "utf16_units cp =
     (if cp < 0x10000 then [of_nat cp]
      else [of_nat (0xD800 + (cp - 0x10000) div 0x400),
            of_nat (0xDC00 + (cp - 0x10000) mod 0x400)])"

text \<open>
  \<open>new TextDecoder().decode(bytes)\<close>: UTF-8, not fatal, and \<open>ignoreBOM\<close> false, so that a
  leading U+FEFF is taken for a byte order mark and dropped.
\<close>

definition TextDecoder_decode :: "bytes \<Rightarrow> jsstring" where
  "TextDecoder_decode buffer =
     (let cps = utf8_decode 0 0 0 0x80 0xBF (map unat buffer);
          cps = (case cps of [] \<Rightarrow> [] | c # rest \<Rightarrow> if c = 0xFEFF then rest else c # rest)
      in concat (map utf16_units cps))"

text \<open>\<open>String.prototype.isWellFormed\<close>: no surrogate code unit stands alone.\<close>

fun isWellFormed :: "jsstring \<Rightarrow> bool" where
  "isWellFormed [] = True"
| "isWellFormed [c] = (\<not> high_surrogate c \<and> \<not> low_surrogate c)"
| "isWellFormed (c # d # s) =
     (if high_surrogate c then low_surrogate d \<and> isWellFormed s
      else \<not> low_surrogate c \<and> isWellFormed (d # s))"

subsection \<open>String.fromCharCode and base64: btoa and atob\<close>

definition base64_alphabet :: jsstring where
  "base64_alphabet = js ''ABCDEFGHIJKLMNOPQRSTUVWXYZabcdefghijklmnopqrstuvwxyz0123456789+/''"

definition base64_char :: "nat \<Rightarrow> 16 word" where
  "base64_char i = base64_alphabet ! i"

fun btoa_loop :: "nat list \<Rightarrow> jsstring" where
  "btoa_loop (a # b # c # rest) =
     [base64_char (a div 4), base64_char (a mod 4 * 16 + b div 16),
      base64_char (b mod 16 * 4 + c div 64), base64_char (c mod 64)] @ btoa_loop rest"
| "btoa_loop [a, b] =
     [base64_char (a div 4), base64_char (a mod 4 * 16 + b div 16),
      base64_char (b mod 16 * 4), 0x3D]"
| "btoa_loop [a] = [base64_char (a div 4), base64_char (a mod 4 * 16), 0x3D, 0x3D]"
| "btoa_loop [] = []"

text \<open>
  \<open>String.fromCharCode(...combined)\<close> for a \<open>Uint8Array\<close>: the spread passes one
  argument for each byte, and the call throws \<open>RangeError\<close> when these are more than the
  engine accepts (\<open>limit\<close>). Otherwise the result has one code unit for each byte.
\<close>

definition String_fromCharCode :: "nat \<Rightarrow> bytes \<Rightarrow> error + jsstring" where
  "String_fromCharCode limit combined =
     (if limit < length combined then Inl RangeError else Inr (map ucast combined))"

text \<open>
  \<open>btoa\<close> throws \<open>InvalidCharacterError\<close> for a code unit above U+00FF; otherwise it
  reads every code unit as a byte and writes the bytes in base64, three to a group of four
  characters, the last group padded with \<open>=\<close>.
\<close>

definition btoa :: "jsstring \<Rightarrow> error + jsstring" where
  "btoa data =
     (if list_ex (\<lambda>c. 0xFF < c) data then Inl InvalidCharacterError
      else Inr (btoa_loop (map unat data)))"

text \<open>
  \<open>atob\<close> is the forgiving-base64 decode of the Infra Standard: ASCII whitespace is
  removed; if the length is then a multiple of 4, one or two trailing \<open>=\<close> are removed; a
  length of 1 modulo 4 and any character outside the alphabet are errors; the rest is read
  in groups of four characters, and a last group of two or three characters gives one or
  two bytes.
\<close>

definition ascii_whitespace :: "16 word \<Rightarrow> bool" where
  "ascii_whitespace c = (c = 0x09 \<or> c = 0x0A \<or> c = 0x0C \<or> c = 0x0D \<or> c = 0x20)"

definition strip_padding :: "jsstring \<Rightarrow> jsstring" where
  "strip_padding data =
     (case rev data of
        [] \<Rightarrow> data
      | c # r \<Rightarrow>
          if c = 0x3D then (case r of [] \<Rightarrow> rev r | d # r' \<Rightarrow> if d = 0x3D then rev r' else rev r)
          else data)"

fun index_of :: "'a \<Rightarrow> 'a list \<Rightarrow> nat option" where
  "index_of x [] = None"
| "index_of x (y # ys) = (if x = y then Some 0 else map_option Suc (index_of x ys))"

fun sextets :: "jsstring \<Rightarrow> nat list option" where
  "sextets [] = Some []"
| "sextets (c # cs) =
     (case index_of c base64_alphabet of
        None \<Rightarrow> None
      | Some i \<Rightarrow> map_option ((#) i) (sextets cs))"

fun atob_loop :: "nat list \<Rightarrow> nat list" where
  "atob_loop (a # b # c # d # rest) =
     [a * 4 + b div 16, b mod 16 * 16 + c div 4, c mod 4 * 64 + d] @ atob_loop rest"
| "atob_loop [a, b, c] = [a * 4 + b div 16, b mod 16 * 16 + c div 4]"
| "atob_loop [a, b] = [a * 4 + b div 16]"
| "atob_loop _ = []"

text \<open>
  \<open>new Uint8Array(atob(encryptedData).split('').map((c) => c.charCodeAt(0)))\<close>, or the
  \<open>InvalidCharacterError\<close> of \<open>atob\<close>.
\<close>

definition atob_bytes :: "jsstring \<Rightarrow> error + bytes" where
  "atob_bytes encryptedData =
     (let data = filter (\<lambda>c. \<not> ascii_whitespace c) encryptedData;
          data = (if length data mod 4 = 0 then strip_padding data else data)
      in if length data mod 4 = 1 then Inl InvalidCharacterError
         else case sextets data of
                None \<Rightarrow> Inl InvalidCharacterError
              | Some groups \<Rightarrow> Inr (map of_nat (atob_loop groups)))"

section \<open>crypto: encrypt, decrypt and the password verifier\<close>

definition SALT_LENGTH :: nat where
  "SALT_LENGTH = 16"

definition IV_LENGTH :: nat where
  "IV_LENGTH = 12"

text \<open>
  The randomness of one call of \<open>encrypt\<close>: \<open>salt_source i\<close> and \<open>iv_source i\<close> are the
  bytes that \<open>crypto.getRandomValues\<close> writes at index \<open>i\<close> of the fresh salt and of the
  fresh nonce. \<open>random_bytes src n\<close> is the \<open>Uint8Array\<close> of length \<open>n\<close> so filled (16
  and 12 bytes are far below the limit of the call).
\<close>

record seal_entropy =
  salt_source :: "nat \<Rightarrow> 8 word"
  iv_source :: "nat \<Rightarrow> 8 word"

definition random_bytes :: "(nat \<Rightarrow> 8 word) \<Rightarrow> nat \<Rightarrow> bytes" where
  "random_bytes src n = map src [0..<n]"

text \<open>
  \<open>deriveKey(password, salt?)\<close>. A \<open>Uint8Array\<close> is an object and so always truthy:
  \<open>salt || crypto.getRandomValues(...)\<close> draws the random bytes \<open>fresh\<close> only when no
  salt is passed.
\<close>

definition deriveKey :: "'e platform \<Rightarrow> jsstring \<Rightarrow> bytes option \<Rightarrow> bytes \<Rightarrow> bytes \<times> bytes" where
  "deriveKey P password salt fresh =
     (let usedSalt = (case salt of Some s \<Rightarrow> s | None \<Rightarrow> fresh);
          passwordBuffer = TextEncoder_encode password;
          key = pbkdf2 P passwordBuffer usedSalt
      in (key, usedSalt))"

text \<open>
  \<open>encrypt\<close> ends in \<open>btoa(String.fromCharCode(...combined))\<close>: it throws where the
  spread call does, that is, when salt, nonce and ciphertext together have more bytes than
  the engine accepts arguments.
\<close>

definition encrypt :: "'e platform \<Rightarrow> seal_entropy \<Rightarrow> jsstring \<Rightarrow> jsstring
    \<Rightarrow> error + jsstring" where
  "encrypt P E plaintext password =
     (let (key, salt) = deriveKey P password None (random_bytes (salt_source E) SALT_LENGTH);
          iv = random_bytes (iv_source E) IV_LENGTH;
          plaintextBuffer = TextEncoder_encode plaintext;
          ciphertext = gcm_encrypt P key iv plaintextBuffer;
          combined = salt @ iv @ ciphertext
      in case String_fromCharCode (argument_limit P) combined of
           Inl e \<Rightarrow> Inl e
         | Inr binary \<Rightarrow> btoa binary)"

definition decrypt :: "'e platform \<Rightarrow> jsstring \<Rightarrow> jsstring \<Rightarrow> error + jsstring" where
  "decrypt P encryptedData password =
     (case atob_bytes encryptedData of
        Inl e \<Rightarrow> Inl e
      | Inr combined \<Rightarrow>
          let salt = take SALT_LENGTH combined;
              iv = take IV_LENGTH (drop SALT_LENGTH combined);
              ciphertext = drop (SALT_LENGTH + IV_LENGTH) combined;
              (key, usedSalt) = deriveKey P password (Some salt) []
          in case gcm_decrypt P key iv ciphertext of
               None \<Rightarrow> Inl OperationError
             | Some plaintextBuffer \<Rightarrow> Inr (TextDecoder_decode plaintextBuffer))"

definition verificationString :: jsstring where
  "verificationString = js ''PASSWORD_VERIFICATION_STRING''"

definition createPasswordVerifier :: "'e platform \<Rightarrow> seal_entropy \<Rightarrow> jsstring
    \<Rightarrow> error + jsstring" where
  "createPasswordVerifier P E password = encrypt P E verificationString password"

text \<open>
  \<open>verifyPassword\<close> catches whatever \<open>decrypt\<close> throws, so that its own result is always
  a boolean: the model keeps the result type of the other functions to say so.
\<close>

definition verifyPassword :: "'e platform \<Rightarrow> jsstring \<Rightarrow> jsstring \<Rightarrow> error + bool" where
  "verifyPassword P password verifier =
     (case decrypt P verifier password of
        Inr decrypted \<Rightarrow> Inr (decrypted = verificationString)
      | Inl e \<Rightarrow> Inr False)"

text \<open>
  What the round trip asks of the platform's AES-GCM, and no more: decrypting, under the
  key and the nonce of one call of \<open>encrypt\<close>, the ciphertext of that call gives the
  encoded plaintext back.
\<close>

definition opens_own_seal :: "'e platform \<Rightarrow> seal_entropy \<Rightarrow> jsstring \<Rightarrow> jsstring \<Rightarrow> bool" where
  "opens_own_seal P E plaintext password =
     (let key = pbkdf2 P (TextEncoder_encode password)
                  (random_bytes (salt_source E) SALT_LENGTH);
          iv = random_bytes (iv_source E) IV_LENGTH;
          plaintextBuffer = TextEncoder_encode plaintext
      in gcm_decrypt P key iv (gcm_encrypt P key iv plaintextBuffer) = Some plaintextBuffer)"

text \<open>
  The size that \<open>encrypt\<close> can handle: the 16 bytes of the salt, the 12 bytes of the nonce
  and the ciphertext of one call are together no more bytes than the engine accepts
  arguments. (The ciphertext of AES-GCM is the encoded plaintext and a tag of 16 bytes.)
\<close>

definition seal_fits :: "'e platform \<Rightarrow> seal_entropy \<Rightarrow> jsstring \<Rightarrow> jsstring \<Rightarrow> bool" where
  "seal_fits P E plaintext password =
     (let key = pbkdf2 P (TextEncoder_encode password)
                  (random_bytes (salt_source E) SALT_LENGTH);
          iv = random_bytes (iv_source E) IV_LENGTH;
          ciphertext = gcm_encrypt P key iv (TextEncoder_encode plaintext)
      in SALT_LENGTH + IV_LENGTH + length ciphertext \<le> argument_limit P)"


section \<open>passwordGenerator: generatePassword\<close>

definition LOWERCASE :: jsstring where
  "LOWERCASE = js ''abcdefghijklmnopqrstuvwxyz''"

definition UPPERCASE :: jsstring where
  "UPPERCASE = js ''ABCDEFGHIJKLMNOPQRSTUVWXYZ''"

definition NUMBERS :: jsstring where
  "NUMBERS = js ''0123456789''"

definition SYMBOLS :: jsstring where
  "SYMBOLS = js ''!@#$%^&*()_+-=[]{}|;:,.<>?''"

text \<open>
  \<open>length_opt\<close> is the field \<open>length\<close> of the source. It is a JavaScript number; the
  model covers the integers (the generator's form offers 8 to 32).
\<close>

record PasswordOptions =
  length_opt :: int
  includeLowercase :: bool
  includeUppercase :: bool
  includeNumbers :: bool
  includeSymbols :: bool

text \<open>
  The randomness the function consumes: \<open>math_random n\<close> is the result of its \<open>n\<close>-th call
  of \<open>Math.random()\<close> (counted from 0), a number that the language puts in \<open>[0, 1)\<close>;
  \<open>random_values k i\<close> is the value that its \<open>k\<close>-th call of \<open>crypto.getRandomValues\<close>
  writes at index \<open>i\<close> of the \<open>Uint32Array\<close> it is given.
\<close>

record entropy =
  math_random :: "nat \<Rightarrow> rat"
  random_values :: "nat \<Rightarrow> nat \<Rightarrow> 32 word"

text \<open>
  \<open>crypto.getRandomValues\<close> on a fresh \<open>Uint32Array\<close> of \<open>n\<close> elements, which are
  \<open>4 * n\<close> bytes: the Web Cryptography API makes the call throw when the array is longer
  than 65536 bytes. (An \<open>n\<close> beyond the engine's limit for typed arrays fails earlier, in
  the constructor; the model does not separate the two failures.)
\<close>

definition getRandomValues32 :: "(nat \<Rightarrow> 32 word) \<Rightarrow> nat \<Rightarrow> error + 32 word list" where
  "getRandomValues32 src n =
     (if 4 * n > 65536 then Inl QuotaExceededError else Inr (map src [0..<n]))"

text \<open>
  \<open>S[Math.floor(r * S.length)]\<close>, as the text that \<open>join\<close> writes for it: one code
  unit, or nothing for the \<open>undefined\<close> of an index out of range. The product is taken
  exactly. The source rounds it to a double before \<open>Math.floor\<close>, which gives the next
  index where the exact product lies less than a rounding step below an integer, and never
  the index \<open>S.length\<close>: the character that the source picks for a result \<open>r\<close> of
  \<open>Math.random\<close> is the one that this definition picks for \<open>r\<close> or for a number
  between \<open>r\<close> and 1.
\<close>

definition random_char :: "jsstring \<Rightarrow> rat \<Rightarrow> jsstring" where
  "random_char S r =
     (let i = \<lfloor>r * of_nat (length S)\<rfloor>
      in if 0 \<le> i \<and> i < int (length S) then [S ! nat i] else [])"

text \<open>
  Lines 83 to 86, the Fisher-Yates loop \<open>for (i = length - 1; i > 0; i--)\<close>; the second
  argument is \<open>i\<close>.
\<close>

fun shuffle_loop :: "32 word list \<Rightarrow> nat \<Rightarrow> 'a list \<Rightarrow> 'a list" where
  "shuffle_loop shuffleValues 0 passwordChars = passwordChars"
| "shuffle_loop shuffleValues (Suc k) passwordChars =
     (let i = Suc k;
          j = unat (shuffleValues ! i) mod (i + 1)
      in shuffle_loop shuffleValues k
           (passwordChars[i := passwordChars ! j, j := passwordChars ! i]))"

text \<open>
  Lines 40 to 59. Each of the four blocks has this shape: when the class is switched on,
  its characters join \<open>charset\<close> and one of them, drawn with \<open>Math.random\<close>, joins
  \<open>requiredChars\<close>. \<open>calls\<close> counts the calls of \<open>Math.random\<close> made so far.
\<close>

fun add_class :: "entropy \<Rightarrow> bool \<Rightarrow> jsstring \<Rightarrow> jsstring \<times> jsstring list \<times> nat
    \<Rightarrow> jsstring \<times> jsstring list \<times> nat" where
  "add_class E include S (charset, requiredChars, calls) =
     (if include
      then (charset @ S, requiredChars @ [random_char S (math_random E calls)], calls + 1)
      else (charset, requiredChars, calls))"

definition generatePassword :: "entropy \<Rightarrow> PasswordOptions \<Rightarrow> error + jsstring" where
  "generatePassword E options =
     (let (charset, requiredChars, calls) =
            add_class E (includeSymbols options) SYMBOLS
              (add_class E (includeNumbers options) NUMBERS
                (add_class E (includeUppercase options) UPPERCASE
                  (add_class E (includeLowercase options) LOWERCASE ([], [], 0))))
      in if length charset = 0 then Inl NoCharacterClass
         else
           let effectiveLength = max (length_opt options) (int (length requiredChars))
           in case getRandomValues32 (random_values E 0)
                     (nat (effectiveLength - int (length requiredChars))) of
                Inl e \<Rightarrow> Inl e
              | Inr randomValues \<Rightarrow>
                  let passwordChars =
                        requiredChars
                        @ map (\<lambda>value. [charset ! (unat value mod length charset)]) randomValues
                  in case getRandomValues32 (random_values E 1) (length passwordChars) of
                       Inl e \<Rightarrow> Inl e
                     | Inr shuffleValues \<Rightarrow>
                         Inr (concat (shuffle_loop shuffleValues (length passwordChars - 1)
                                        passwordChars)))"

text \<open>The vocabulary of the generator's policy: the characters of a class, and its switch.\<close>

datatype char_class = Lowercase | Uppercase | Numbers | Symbols

fun class_chars :: "char_class \<Rightarrow> jsstring" where
  "class_chars Lowercase = LOWERCASE"
| "class_chars Uppercase = UPPERCASE"
| "class_chars Numbers = NUMBERS"
| "class_chars Symbols = SYMBOLS"

fun enabled :: "PasswordOptions \<Rightarrow> char_class \<Rightarrow> bool" where
  "enabled options Lowercase = includeLowercase options"
| "enabled options Uppercase = includeUppercase options"
| "enabled options Numbers = includeNumbers options"
| "enabled options Symbols = includeSymbols options"

definition enabled_count :: "PasswordOptions \<Rightarrow> nat" where
  "enabled_count options =
     length (filter (enabled options) [Lowercase, Uppercase, Numbers, Symbols])"

text \<open>
  The invariant of lines 40 to 59, for the proofs: after the blocks of the classes
  \<open>en\<close> that are switched on, \<open>charset\<close> holds their characters and
  \<open>requiredChars\<close> one character of each.
\<close>

definition collected :: "char_class list \<Rightarrow> jsstring \<times> jsstring list \<times> nat \<Rightarrow> bool" where
  "collected en st =
     (case st of (charset, requiredChars, calls) \<Rightarrow>
        calls = length en \<and> length requiredChars = length en
        \<and> set charset = (\<Union>cls\<in>set en. set (class_chars cls))
        \<and> (\<forall>r\<in>set requiredChars. \<exists>c\<in>set charset. r = [c])
        \<and> (\<forall>cls\<in>set en. \<exists>c\<in>set (class_chars cls). [c] \<in> set requiredChars))"

section \<open>passwordGenerator: evaluatePasswordStrength\<close>

text \<open>
  The four character classes of the regular expressions \<open>/[a-z]/\<close>, \<open>/[A-Z]/\<close>,
  \<open>/[0-9]/\<close> and \<open>/[!@#$%^&*()_+\-=\[\]{}|;:,.<>?]/\<close>.
\<close>

fun in_class :: "char_class \<Rightarrow> 16 word \<Rightarrow> bool" where
  "in_class Lowercase c = (0x61 \<le> c \<and> c \<le> 0x7A)"
| "in_class Uppercase c = (0x41 \<le> c \<and> c \<le> 0x5A)"
| "in_class Numbers c = (0x30 \<le> c \<and> c \<le> 0x39)"
| "in_class Symbols c = (c \<in> set (js ''!@#$%^&*()_+-=[]{}|;:,.<>?''))"

definition regex_test :: "char_class \<Rightarrow> jsstring \<Rightarrow> bool" where
  "regex_test cls password = list_ex (in_class cls) password"

text \<open>
  \<open>/(.)\1{2,}/\<close>: some code unit other than a line terminator (\<open>.\<close> without the
  \<open>s\<close> flag matches neither LF, CR, U+2028 nor U+2029) is followed by two more copies of
  itself.
\<close>

definition line_terminator :: "16 word \<Rightarrow> bool" where
  "line_terminator c = (c = 0x0A \<or> c = 0x0D \<or> c = 0x2028 \<or> c = 0x2029)"

fun regex_repeat :: "jsstring \<Rightarrow> bool" where
  "regex_repeat (a # b # c # rest) =
     ((\<not> line_terminator a \<and> b = a \<and> c = a) \<or> regex_repeat (b # c # rest))"
| "regex_repeat _ = False"

datatype level = weak | fair | good | strong

text \<open>
  The feedback messages, in the order of their first appearance in the source: "add
  lowercase letters", "add uppercase letters", "add digits", "add symbols", "avoid runs of
  the same character", "avoid common patterns", "the password is too short", "this is a
  strong password".
\<close>

datatype message =
  AddLowercase | AddUppercase | AddNumbers | AddSymbols
  | AvoidRepeats | AvoidCommonPatterns | TooShort | StrongPassword

text \<open>Lines 101 to 139: the length points, the class points and the repeat penalty.\<close>

definition score_before_patterns :: "jsstring \<Rightarrow> int \<times> message list" where
  "score_before_patterns password =
     (let score = 0;
          feedback = [];
          score = (if length password \<ge> 8 then score + 10 else score);
          score = (if length password \<ge> 12 then score + 15 else score);
          score = (if length password \<ge> 16 then score + 15 else score);
          score = (if length password \<ge> 20 then score + 10 else score);
          (score, feedback) =
            (if regex_test Lowercase password then (score + 10, feedback)
             else (score, feedback @ [AddLowercase]));
          (score, feedback) =
            (if regex_test Uppercase password then (score + 10, feedback)
             else (score, feedback @ [AddUppercase]));
          (score, feedback) =
            (if regex_test Numbers password then (score + 10, feedback)
             else (score, feedback @ [AddNumbers]));
          (score, feedback) =
            (if regex_test Symbols password then (score + 15, feedback)
             else (score, feedback @ [AddSymbols]));
          (score, feedback) =
            (if regex_repeat password then (score - 10, feedback @ [AvoidRepeats])
             else (score, feedback))
      in (score, feedback))"

definition commonPatterns :: "jsstring list" where
  "commonPatterns = [js ''123'', js ''abc'', js ''qwerty'', js ''password'', js ''admin'']"

text \<open>Lines 143 to 149: the loop over the patterns, left at the first match.\<close>

fun pattern_loop :: "'e platform \<Rightarrow> jsstring \<Rightarrow> jsstring list \<Rightarrow> int \<times> message list
    \<Rightarrow> int \<times> message list" where
  "pattern_loop P password [] (score, feedback) = (score, feedback)"
| "pattern_loop P password (pattern # rest) (score, feedback) =
     (if str_includes (toLowerCase P password) pattern
      then (score - 15, feedback @ [AvoidCommonPatterns])
      else pattern_loop P password rest (score, feedback))"

record strength =
  score :: int
  level :: level
  feedback :: "message list"

text \<open>Lines 152 to 172: clamping, the level, and the two messages tied to it.\<close>

definition normalize :: "jsstring \<Rightarrow> int \<times> message list \<Rightarrow> strength" where
  "normalize password sf =
     (let score = max 0 (min 100 (fst sf));
          feedback = snd sf
      in if score < 30 then
           \<lparr>score = score, level = weak,
            feedback = (if length password < 8 then TooShort # feedback else feedback)\<rparr>
         else if score < 50 then \<lparr>score = score, level = fair, feedback = feedback\<rparr>
         else if score < 75 then \<lparr>score = score, level = good, feedback = feedback\<rparr>
         else \<lparr>score = score, level = strong,
               feedback = (if length feedback = 0 then feedback @ [StrongPassword]
                           else feedback)\<rparr>)"

definition evaluatePasswordStrength :: "'e platform \<Rightarrow> jsstring \<Rightarrow> strength" where
  "evaluatePasswordStrength P password =
     normalize password
       (pattern_loop P password commonPatterns (score_before_patterns password))"

section \<open>storage: the vault in localStorage\<close>

text \<open>
  \<open>entry_id\<close> is the field \<open>id\<close> of the source. The three fields that the interface marks
  with \<open>?\<close> are \<open>None\<close> where the object has no such key, or holds \<open>undefined\<close> under
  it (\<open>JSON.stringify\<close> writes neither).
\<close>

record PasswordEntry =
  entry_id :: jsstring
  serviceName :: jsstring
  username :: jsstring
  password :: jsstring
  url :: "jsstring option"
  "notes" :: "jsstring option"
  category :: "jsstring option"
  createdAt :: jsstring
  updatedAt :: jsstring

text \<open>
  \<open>localStorage\<close> maps keys to strings; \<open>getItem\<close> of a missing key is \<open>null\<close>, here
  \<open>None\<close>. (\<open>setItem\<close> has a quota on the data of one origin, of the order of
  megabytes. The model leaves it out: the texts that \<open>encrypt\<close> can return stay far
  below it.)
\<close>

type_synonym localStorage = "string \<Rightarrow> jsstring option"

definition PASSWORD_VERIFIER :: string where
  "PASSWORD_VERIFIER = ''pm_password_verifier''"

definition ENCRYPTED_DATA :: string where
  "ENCRYPTED_DATA = ''pm_encrypted_data''"

definition IS_INITIALIZED :: string where
  "IS_INITIALIZED = ''pm_initialized''"

text \<open>
  A result \<open>Inl e\<close> is an exception that reaches the caller. The operations on the
  vault return their result together with the store they leave; \<open>getPasswords\<close> and
  \<open>isAppInitialized\<close> only read it. \<open>has_window\<close> says whether \<open>typeof window\<close> is
  not \<open>'undefined'\<close>.
\<close>

definition isAppInitialized :: "bool \<Rightarrow> localStorage \<Rightarrow> bool" where
  "isAppInitialized has_window st =
     (if \<not> has_window then False else st IS_INITIALIZED = Some (js ''true''))"

definition initializeApp :: "PasswordEntry platform \<Rightarrow> seal_entropy \<Rightarrow> seal_entropy \<Rightarrow> jsstring
    \<Rightarrow> localStorage \<Rightarrow> (error + unit) \<times> localStorage" where
  "initializeApp P E1 E2 masterPassword st =
     (case createPasswordVerifier P E1 masterPassword of
        Inl e \<Rightarrow> (Inl e, st)
      | Inr verifier \<Rightarrow>
          (case encrypt P E2 (JSON_stringify P []) masterPassword of
             Inl e \<Rightarrow> (Inl e, st)
           | Inr encryptedData \<Rightarrow>
               let st = st(PASSWORD_VERIFIER \<mapsto> verifier);
                   st = st(ENCRYPTED_DATA \<mapsto> encryptedData);
                   st = st(IS_INITIALIZED \<mapsto> js ''true'')
               in (Inr (), st)))"

text \<open>
  \<open>getPasswords\<close>: \<open>!encryptedData\<close> holds for \<open>null\<close> and for the empty string. The
  \<open>try\<close> block can throw from \<open>decrypt\<close> and from \<open>JSON.parse\<close>; the \<open>catch\<close> clause
  binds nothing and throws an \<open>Error\<close> of its own. The function returns what \<open>JSON.parse\<close>
  returns under the type \<open>PasswordEntry[]\<close>, without a check: the model covers the texts
  that \<open>JSON_parse\<close> reads as arrays of entries.
\<close>

definition getPasswords :: "PasswordEntry platform \<Rightarrow> localStorage \<Rightarrow> jsstring
    \<Rightarrow> error + PasswordEntry list" where
  "getPasswords P st masterPassword =
     (case st ENCRYPTED_DATA of
        None \<Rightarrow> Inr []
      | Some encryptedData \<Rightarrow>
          if encryptedData = [] then Inr []
          else
            (case (case decrypt P encryptedData masterPassword of
                     Inl e \<Rightarrow> Inl e
                   | Inr decrypted \<Rightarrow>
                       (case JSON_parse P decrypted of
                          None \<Rightarrow> Inl SyntaxError
                        | Some passwords \<Rightarrow> Inr passwords)) of
               Inl e \<Rightarrow> Inl DecryptFailed
             | Inr passwords \<Rightarrow> Inr passwords))"

text \<open>
  \<open>savePasswords\<close> writes nothing when \<open>encrypt\<close> throws, and its callers pass the
  exception on.
\<close>

definition savePasswords :: "PasswordEntry platform \<Rightarrow> seal_entropy \<Rightarrow> PasswordEntry list
    \<Rightarrow> jsstring \<Rightarrow> localStorage \<Rightarrow> (error + unit) \<times> localStorage" where
  "savePasswords P E passwords masterPassword st =
     (case encrypt P E (JSON_stringify P passwords) masterPassword of
        Inl e \<Rightarrow> (Inl e, st)
      | Inr encryptedData \<Rightarrow> (Inr (), st(ENCRYPTED_DATA \<mapsto> encryptedData)))"

text \<open>\<open>Array.prototype.findIndex\<close>, with \<open>None\<close> for \<open>-1\<close>.\<close>

fun findIndex :: "('a \<Rightarrow> bool) \<Rightarrow> 'a list \<Rightarrow> nat option" where
  "findIndex f [] = None"
| "findIndex f (x # xs) = (if f x then Some 0 else map_option Suc (findIndex f xs))"




definition deletePassword :: "PasswordEntry platform \<Rightarrow> seal_entropy \<Rightarrow> jsstring \<Rightarrow> jsstring
    \<Rightarrow> localStorage \<Rightarrow> (error + bool) \<times> localStorage" where
  "deletePassword P E id' masterPassword st =
     (case getPasswords P st masterPassword of
        Inl e \<Rightarrow> (Inl e, st)
      | Inr passwords \<Rightarrow>
          (case findIndex (\<lambda>p. entry_id p = id') passwords of
             None \<Rightarrow> (Inr False, st)
           | Some index \<Rightarrow>
               let passwords = take index passwords @ drop (index + 1) passwords
               in (case savePasswords P E passwords masterPassword st of
                     (Inl e, st) \<Rightarrow> (Inl e, st)
                   | (Inr saved, st) \<Rightarrow> (Inr True, st))))"





text \<open>
  What reading a saved collection back asks of the platform: AES-GCM opens the seal of the
  call that saved it, and \<open>JSON.stringify\<close> writes the collection as well-formed text,
  not beginning with U+FEFF, that \<open>JSON.parse\<close> reads as the same collection.
\<close>

definition reads_back :: "PasswordEntry platform \<Rightarrow> seal_entropy \<Rightarrow> PasswordEntry list \<Rightarrow> jsstring
    \<Rightarrow> bool" where
  "reads_back P E passwords masterPassword =
     (opens_own_seal P E (JSON_stringify P passwords) masterPassword
      \<and> isWellFormed (JSON_stringify P passwords)
      \<and> \<not> startsWith (JSON_stringify P passwords) [0xFEFF]
      \<and> JSON_parse P (JSON_stringify P passwords) = Some passwords)"

section \<open>A reference platform for evaluation\<close>

text \<open>
  Closed examples need a concrete platform. \<open>ascii_toLowerCase\<close> agrees with
  \<open>String.prototype.toLowerCase\<close> on every string of ASCII code units.
\<close>

definition ascii_toLowerCase :: "jsstring \<Rightarrow> jsstring" where
  "ascii_toLowerCase s = map (\<lambda>c. if 0x41 \<le> c \<and> c \<le> 0x5A then c + 0x20 else c) s"

text \<open>
  A toy stand-in for PBKDF2 and AES-GCM, with no secrecy at all: the key is the password
  and the salt cut or padded to 32 bytes, and the ciphertext is the plaintext followed by a
  16-byte tag, a checksum of key, nonce and plaintext. Like AES-GCM it gives back what it
  encrypted and rejects a ciphertext shorter than the tag or with the wrong tag.
\<close>

definition toy_pbkdf2 :: "bytes \<Rightarrow> bytes \<Rightarrow> bytes" where
  "toy_pbkdf2 passwordBuffer salt = take 32 (passwordBuffer @ salt @ replicate 32 0)"

definition toy_tag :: "bytes \<Rightarrow> bytes \<Rightarrow> bytes \<Rightarrow> bytes" where
  "toy_tag key iv plaintext = replicate 16 (sum_list (key @ iv @ plaintext))"

definition toy_encrypt :: "bytes \<Rightarrow> bytes \<Rightarrow> bytes \<Rightarrow> bytes" where
  "toy_encrypt key iv plaintext = plaintext @ toy_tag key iv plaintext"

definition toy_decrypt :: "bytes \<Rightarrow> bytes \<Rightarrow> bytes \<Rightarrow> bytes option" where
  "toy_decrypt key iv ciphertext =
     (if length ciphertext < 16 then None
      else let plaintext = take (length ciphertext - 16) ciphertext
           in if drop (length ciphertext - 16) ciphertext = toy_tag key iv plaintext
              then Some plaintext else None)"

text \<open>
  A toy stand-in for JSON on entry arrays: \<open>ref_stringify\<close> writes the fields without any
  escape (the examples need none), and \<open>ref_parse\<close> knows the documents of the example
  collections and rejects every other text.
\<close>

definition json_string :: "jsstring \<Rightarrow> jsstring" where
  "json_string s = [0x22] @ s @ [0x22]"

definition json_member :: "string \<Rightarrow> jsstring \<Rightarrow> jsstring" where
  "json_member k v = json_string (js k) @ js '':'' @ json_string v"

definition json_optional :: "string \<Rightarrow> jsstring option \<Rightarrow> jsstring" where
  "json_optional k v = (case v of None \<Rightarrow> [] | Some text \<Rightarrow> js '','' @ json_member k text)"

definition json_entry :: "PasswordEntry \<Rightarrow> jsstring" where
  "json_entry p =
     js ''{'' @ json_member ''id'' (entry_id p)
     @ js '','' @ json_member ''serviceName'' (serviceName p)
     @ js '','' @ json_member ''username'' (username p)
     @ js '','' @ json_member ''password'' (password p)
     @ json_optional ''url'' (url p)
     @ json_optional ''notes'' (notes p)
     @ json_optional ''category'' (category p)
     @ js '','' @ json_member ''createdAt'' (createdAt p)
     @ js '','' @ json_member ''updatedAt'' (updatedAt p)
     @ js ''}''"

fun json_entries :: "PasswordEntry list \<Rightarrow> jsstring" where
  "json_entries [] = []"
| "json_entries [p] = json_entry p"
| "json_entries (p # ps) = json_entry p @ js '','' @ json_entries ps"

definition ref_stringify :: "PasswordEntry list \<Rightarrow> jsstring" where
  "ref_stringify ps = js ''['' @ json_entries ps @ js '']''"

definition mail_entry :: PasswordEntry where
  "mail_entry =
     \<lparr>entry_id = js ''e1'', serviceName = js ''Mail'', username = js ''a@b.com'',
      password = js ''x'', url = None, notes = Some [], category = None,
      createdAt = js ''2024-01-01T00:00:00.000Z'', updatedAt = js ''2024-01-01T00:00:00.000Z''\<rparr>"

definition shop_entry :: PasswordEntry where
  "shop_entry =
     \<lparr>entry_id = js ''e2'', serviceName = js ''Shop'', username = js ''carol'',
      password = js ''y'', url = Some (js ''https://MAIL.example''), notes = None,
      category = None,
      createdAt = js ''2024-02-02T00:00:00.000Z'', updatedAt = js ''2024-02-02T00:00:00.000Z''\<rparr>"

definition updated_shop_entry :: PasswordEntry where
  "updated_shop_entry =
     shop_entry\<lparr>username := js ''dave'', url := None,
                 updatedAt := js ''2024-03-03T00:00:00.000Z''\<rparr>"

definition ref_collections :: "PasswordEntry list list" where
  "ref_collections =
     [[], [mail_entry], [shop_entry], [mail_entry, shop_entry], [mail_entry, updated_shop_entry]]"

definition ref_parse :: "jsstring \<Rightarrow> PasswordEntry list option" where
  "ref_parse s = find (\<lambda>ps. ref_stringify ps = s) ref_collections"

text \<open>
  The reference platform accepts 65536 arguments in a call, the fixed count of one of the
  engines in use; the others accept more, up to some hundreds of thousands.
\<close>

definition ref_platform :: "PasswordEntry platform" where
  "ref_platform =
     \<lparr>pbkdf2 = toy_pbkdf2, gcm_encrypt = toy_encrypt, gcm_decrypt = toy_decrypt,
      JSON_stringify = ref_stringify, JSON_parse = ref_parse,
      toLowerCase = ascii_toLowerCase, argument_limit = 65536\<rparr>"

definition ref_seal :: seal_entropy where
  "ref_seal = \<lparr>salt_source = (\<lambda>i. of_nat (3 * i + 1)), iv_source = (\<lambda>i. of_nat (5 * i + 2))\<rparr>"

definition ref_entropy :: entropy where
  "ref_entropy = \<lparr>math_random = (\<lambda>n. 1 / 2), random_values = (\<lambda>k i. of_nat (7 * i + k))\<rparr>"

definition ref_seal2 :: seal_entropy where
  "ref_seal2 = \<lparr>salt_source = (\<lambda>i. of_nat (7 * i + 3)), iv_source = (\<lambda>i. of_nat (11 * i + 4))\<rparr>"

text \<open>
  Example stores: a vault that holds the two example entries under the master password
  \<open>master\<close>, and stores whose data slot cannot be read. \<open>example_seal E plaintext\<close>
  is the text that \<open>encrypt\<close> returns for a plaintext of the examples and that password.
\<close>

definition example_seal :: "seal_entropy \<Rightarrow> jsstring \<Rightarrow> jsstring" where
  "example_seal E plaintext =
     (case encrypt ref_platform E plaintext (js ''master'') of
        Inr encryptedData \<Rightarrow> encryptedData
      | Inl e \<Rightarrow> [])"

definition vault_store :: localStorage where
  "vault_store =
     (\<lambda>key. None)
       (PASSWORD_VERIFIER \<mapsto> example_seal ref_seal verificationString,
        ENCRYPTED_DATA \<mapsto> example_seal ref_seal2 (ref_stringify [mail_entry, shop_entry]),
        IS_INITIALIZED \<mapsto> js ''true'')"

definition truncated_store :: localStorage where
  "truncated_store = vault_store(ENCRYPTED_DATA \<mapsto> js ''AAAA'')"

definition garbled_store :: localStorage where
  "garbled_store = vault_store(ENCRYPTED_DATA \<mapsto> example_seal ref_seal2 (js ''{''))"


text \<open>
  An update that the entry form can send: notes of 125000 letters \<open>a\<close>. The form puts no
  bound on the length of its fields.
\<close>

definition long_notes :: jsstring where
  "long_notes = replicate 125000 0x61"



section \<open>Properties of the strength evaluator\<close>

lemma pattern_loop_fst:
  "fst (pattern_loop P pw pats (s, f)) =
     s - (if list_ex (str_includes (toLowerCase P pw)) pats then 15 else 0)"
  by (induction pats) auto

lemma pattern_loop_snd:
  "snd (pattern_loop P pw pats (s, f)) =
     f @ (if list_ex (str_includes (toLowerCase P pw)) pats then [AvoidCommonPatterns] else [])"
  by (induction pats) auto

lemma score_before_patterns_no_common:
  "AvoidCommonPatterns \<notin> set (snd (score_before_patterns pw))"
  by (simp add: score_before_patterns_def Let_def)

lemma score_normalize: "score (normalize pw sf) = max 0 (min 100 (fst sf))"
  by (simp add: normalize_def Let_def)

lemma count_feedback_normalize:
  "count_list (feedback (normalize pw sf)) AvoidCommonPatterns
     = count_list (snd sf) AvoidCommonPatterns"
  by (simp add: normalize_def Let_def)

lemma regex_test_append: "regex_test cls (pw @ [c]) = (regex_test cls pw \<or> in_class cls c)"
  by (simp add: regex_test_def)

lemma regex_repeat_append: "c \<notin> set pw \<Longrightarrow> regex_repeat (pw @ [c]) = regex_repeat pw"
  by (induction pw rule: regex_repeat.induct) auto

lemma fst_score_before_patterns:
  "fst (score_before_patterns pw) =
     (if length pw \<ge> 8 then 10 else 0) + (if length pw \<ge> 12 then 15 else 0)
     + (if length pw \<ge> 16 then 15 else 0) + (if length pw \<ge> 20 then 10 else 0)
     + (if regex_test Lowercase pw then 10 else 0) + (if regex_test Uppercase pw then 10 else 0)
     + (if regex_test Numbers pw then 10 else 0) + (if regex_test Symbols pw then 15 else 0)
     - (if regex_repeat pw then 10 else 0)"
  by (simp add: score_before_patterns_def Let_def)

lemma score_before_patterns_mono:
  assumes "c \<notin> set pw"
  shows "fst (score_before_patterns pw) \<le> fst (score_before_patterns (pw @ [c]))"
proof -
  have l: "(if length pw \<ge> 8 then 10 else 0) + (if length pw \<ge> 12 then 15 else 0)
     + (if length pw \<ge> 16 then 15 else 0) + (if length pw \<ge> 20 then (10::int) else 0)
    \<le> (if length (pw @ [c]) \<ge> 8 then 10 else 0) + (if length (pw @ [c]) \<ge> 12 then 15 else 0)
     + (if length (pw @ [c]) \<ge> 16 then 15 else 0) + (if length (pw @ [c]) \<ge> 20 then 10 else 0)"
    by simp
  have k: "(if regex_test cls pw then n else 0) \<le> (if regex_test cls (pw @ [c]) then n else 0)"
    if "0 \<le> n" for cls and n :: int
    using that by (simp add: regex_test_append)
  have r: "regex_repeat (pw @ [c]) = regex_repeat pw"
    using assms by (rule regex_repeat_append)
  show ?thesis
    unfolding fst_score_before_patterns r
    using l k [of 10 Lowercase] k [of 10 Uppercase] k [of 10 Numbers] k [of 15 Symbols]
    by linarith
qed

lemmas strength_eval =
  evaluatePasswordStrength_def normalize_def score_before_patterns_def regex_test_def
  line_terminator_def commonPatterns_def js_def ref_platform_def ascii_toLowerCase_def

text \<open>
  Claim C8, as amended. Appending a character of a class that the password lacks never
  lowers the score, provided the longer password does not contain one of the common
  patterns unless the shorter one already did. (Without the proviso the claim fails: the
  appended character can complete a pattern, and the penalty of 15 outweighs the 10 or 15
  points of the new class.)
\<close>

theorem C8_append_missing_class:
  assumes "in_class cls c" and "\<not> regex_test cls pw"
    and "list_ex (str_includes (toLowerCase P (pw @ [c]))) commonPatterns
         \<longrightarrow> list_ex (str_includes (toLowerCase P pw)) commonPatterns"
  shows "score (evaluatePasswordStrength P pw) \<le> score (evaluatePasswordStrength P (pw @ [c]))"
proof -
  have "c \<notin> set pw"
    using assms(1,2) by (auto simp: regex_test_def list_ex_iff)
  then have "fst (score_before_patterns pw) \<le> fst (score_before_patterns (pw @ [c]))"
    by (rule score_before_patterns_mono)
  then show ?thesis
    unfolding evaluatePasswordStrength_def score_normalize
    using assms(3)
    by (cases "score_before_patterns pw"; cases "score_before_patterns (pw @ [c])")
       (auto simp: pattern_loop_fst)
qed

theorem C8_append_missing_class_witness:
  "in_class Numbers 0x37 \<and> \<not> regex_test Numbers (js ''Abdx'')
   \<and> \<not> list_ex (str_includes (toLowerCase ref_platform (js ''Abdx'' @ [0x37]))) commonPatterns
   \<and> score (evaluatePasswordStrength ref_platform (js ''Abdx'')) = 20
   \<and> score (evaluatePasswordStrength ref_platform (js ''Abdx'' @ [0x37])) = 30"
  using C8_append_missing_class [of Numbers "0x37" "js ''Abdx''" ref_platform]
  by (simp add: strength_eval)

text \<open>
  The claim as stated fails at the password \<open>AB\<close> and the lowercase letter \<open>c\<close>: no
  lowercase letter occurs in \<open>AB\<close>, and the score falls from 10 to 5, since \<open>ABc\<close>
  contains the pattern \<open>abc\<close> once lower-cased.
\<close>

theorem C8_counterexample:
  "in_class Lowercase 0x63 \<and> \<not> regex_test Lowercase (js ''AB'')
   \<and> score (evaluatePasswordStrength ref_platform (js ''AB'')) = 10
   \<and> score (evaluatePasswordStrength ref_platform (js ''AB'' @ [0x63])) = 5"
  by (simp add: strength_eval)

text \<open>
  Claim C9. The loop over the common patterns subtracts 15 once when some pattern occurs in
  the lower-cased password and nothing otherwise, however many of them occur, and the
  message "avoid common patterns" appears in the feedback once or not at all.
\<close>

theorem C9_pattern_penalty_once:
  "score (evaluatePasswordStrength P pw) =
     max 0 (min 100 (fst (score_before_patterns pw)
        - (if list_ex (str_includes (toLowerCase P pw)) commonPatterns then 15 else 0)))
   \<and> count_list (feedback (evaluatePasswordStrength P pw)) AvoidCommonPatterns
     = (if list_ex (str_includes (toLowerCase P pw)) commonPatterns then 1 else 0)"
proof -
  obtain s f where sf: "score_before_patterns pw = (s, f)"
    by (cases "score_before_patterns pw")
  have nf: "count_list f AvoidCommonPatterns = 0"
    using score_before_patterns_no_common [of pw] sf by (simp add: count_list_0_iff)
  show ?thesis
    unfolding evaluatePasswordStrength_def score_normalize count_feedback_normalize sf
      pattern_loop_fst pattern_loop_snd
    using nf by simp
qed

theorem C9_pattern_penalty_once_witness:
  "str_includes (toLowerCase ref_platform (js ''abc123Password'')) (js ''123'')
   \<and> str_includes (toLowerCase ref_platform (js ''abc123Password'')) (js ''abc'')
   \<and> str_includes (toLowerCase ref_platform (js ''abc123Password'')) (js ''password'')
   \<and> fst (score_before_patterns (js ''abc123Password'')) = 55
   \<and> score (evaluatePasswordStrength ref_platform (js ''abc123Password'')) = 40
   \<and> count_list (feedback (evaluatePasswordStrength ref_platform (js ''abc123Password'')))
         AvoidCommonPatterns = 1"
  using C9_pattern_penalty_once [of ref_platform "js ''abc123Password''"]
  by (simp add: strength_eval)

section \<open>Properties of the generator\<close>

lemma random_char_in:
  assumes "0 \<le> r" "r < 1" "S \<noteq> []"
  shows "\<exists>c\<in>set S. random_char S r = [c]"
proof -
  let ?i = "\<lfloor>r * of_nat (length S)\<rfloor>"
  have "0 \<le> r * of_nat (length S)" using assms(1) by simp
  then have lo: "0 \<le> ?i" by simp
  have "r * of_nat (length S) < of_nat (length S)"
    using assms(2,3) by simp
  then have hi: "?i < int (length S)"
    by (simp add: floor_less_iff)
  have n: "nat ?i < length S" using lo hi by linarith
  have eq: "random_char S r = [S ! nat ?i]"
    using lo hi by (simp add: random_char_def Let_def)
  have "S ! nat ?i \<in> set S" using n by (rule nth_mem)
  then show ?thesis unfolding eq by blast
qed

lemma class_chars_nonempty: "class_chars cls \<noteq> []"
  by (cases cls) (simp_all add: LOWERCASE_def UPPERCASE_def NUMBERS_def SYMBOLS_def js_def)

lemma shuffle_loop_mset:
  "i < length xs \<Longrightarrow> mset (shuffle_loop sv i xs) = mset xs"
proof (induction i arbitrary: xs)
  case 0
  then show ?case by simp
next
  case (Suc k)
  let ?j = "unat (sv ! Suc k) mod (Suc k + 1)"
  have "?j < Suc k + 1" by (rule mod_less_divisor) simp
  then have j: "?j < length xs" using Suc.prems by linarith
  have "mset (xs[Suc k := xs ! ?j, ?j := xs ! Suc k]) = mset xs"
    using mset_swap [OF j Suc.prems] .
  moreover have "k < length (xs[Suc k := xs ! ?j, ?j := xs ! Suc k])"
    using Suc.prems by simp
  ultimately show ?case
    using Suc.IH [of "xs[Suc k := xs ! ?j, ?j := xs ! Suc k]"] by (simp add: Let_def)
qed

lemma concat_singletons:
  "\<forall>x\<in>set xs. \<exists>c. x = [c] \<Longrightarrow> length (concat xs) = length xs"
  by (induction xs) auto

lemma collected_add_class:
  assumes "collected en st" and "0 \<le> math_random E (length en)" and "math_random E (length en) < 1"
  shows "collected (if inc then en @ [cls] else en) (add_class E inc (class_chars cls) st)"
proof (cases inc)
  case False
  then show ?thesis using assms(1) by (cases st) simp
next
  case True
  obtain charset req calls where st: "st = (charset, req, calls)" by (cases st)
  have calls: "calls = length en" using assms(1) st by (simp add: collected_def)
  obtain c where c: "c \<in> set (class_chars cls)"
      "random_char (class_chars cls) (math_random E (length en)) = [c]"
    using random_char_in [OF assms(2,3) class_chars_nonempty [of cls]] by blast
  show ?thesis
    using assms(1) True c unfolding st collected_def calls
    by (auto simp del: class_chars.simps)
qed

lemma collected_step:
  assumes "collected (filter (enabled options) cs) st" and "length cs < 4"
    and "\<forall>n<4. 0 \<le> math_random E n \<and> math_random E n < 1"
  shows "collected (filter (enabled options) (cs @ [cls]))
           (add_class E (enabled options cls) (class_chars cls) st)"
proof -
  have "length (filter (enabled options) cs) \<le> length cs" by simp
  then have "length (filter (enabled options) cs) < 4" using assms(2) by linarith
  then have r: "0 \<le> math_random E (length (filter (enabled options) cs))"
      "math_random E (length (filter (enabled options) cs)) < 1"
    using assms(3) by blast+
  show ?thesis
    using collected_add_class [OF assms(1) r, of "enabled options cls" cls]
    by (cases "enabled options cls") simp_all
qed

lemma collected_all:
  assumes "\<forall>n<4. 0 \<le> math_random E n \<and> math_random E n < 1"
  shows "collected (filter (enabled options) [Lowercase, Uppercase, Numbers, Symbols])
     (add_class E (includeSymbols options) SYMBOLS
        (add_class E (includeNumbers options) NUMBERS
          (add_class E (includeUppercase options) UPPERCASE
            (add_class E (includeLowercase options) LOWERCASE ([], [], 0)))))"
proof -
  have 0: "collected (filter (enabled options) []) ([], [], 0)"
    by (simp add: collected_def)
  have 1: "collected (filter (enabled options) ([] @ [Lowercase]))
     (add_class E (enabled options Lowercase) (class_chars Lowercase) ([], [], 0))"
    by (rule collected_step [OF 0 _ assms]) simp
  have 2: "collected (filter (enabled options) (([] @ [Lowercase]) @ [Uppercase]))
     (add_class E (enabled options Uppercase) (class_chars Uppercase)
       (add_class E (enabled options Lowercase) (class_chars Lowercase) ([], [], 0)))"
    by (rule collected_step [OF 1 _ assms]) simp
  have 3: "collected (filter (enabled options) ((([] @ [Lowercase]) @ [Uppercase]) @ [Numbers]))
     (add_class E (enabled options Numbers) (class_chars Numbers)
       (add_class E (enabled options Uppercase) (class_chars Uppercase)
         (add_class E (enabled options Lowercase) (class_chars Lowercase) ([], [], 0))))"
    by (rule collected_step [OF 2 _ assms]) simp
  have 4: "collected
     (filter (enabled options) (((([] @ [Lowercase]) @ [Uppercase]) @ [Numbers]) @ [Symbols]))
     (add_class E (enabled options Symbols) (class_chars Symbols)
      (add_class E (enabled options Numbers) (class_chars Numbers)
       (add_class E (enabled options Uppercase) (class_chars Uppercase)
         (add_class E (enabled options Lowercase) (class_chars Lowercase) ([], [], 0)))))"
    by (rule collected_step [OF 3 _ assms]) simp
  show ?thesis using 4 by simp
qed

lemma class_chars_range:
  assumes "c \<in> set (class_chars cls)"
  shows "(case cls of Lowercase \<Rightarrow> 0x61 \<le> c \<and> c \<le> 0x7A
      | Uppercase \<Rightarrow> 0x41 \<le> c \<and> c \<le> 0x5A
      | Numbers \<Rightarrow> 0x30 \<le> c \<and> c \<le> 0x39
      | Symbols \<Rightarrow> (0x21 \<le> c \<and> c \<le> 0x2F) \<or> (0x3A \<le> c \<and> c \<le> 0x40)
          \<or> (0x5B \<le> c \<and> c \<le> 0x60) \<or> (0x7B \<le> c \<and> c \<le> 0x7E))"
proof (cases cls)
  case Lowercase
  then show ?thesis using assms by (simp add: LOWERCASE_def js_def) (elim disjE; simp)
next
  case Uppercase
  then show ?thesis using assms by (simp add: UPPERCASE_def js_def) (elim disjE; simp)
next
  case Numbers
  then show ?thesis using assms by (simp add: NUMBERS_def js_def) (elim disjE; simp)
next
  case Symbols
  then show ?thesis using assms by (simp add: SYMBOLS_def js_def) (elim disjE; simp)
qed

lemma class_chars_disjoint:
  assumes "c \<in> set (class_chars cls)" and "c \<in> set (class_chars cls')"
  shows "cls = cls'"
  using class_chars_range [OF assms(1)] class_chars_range [OF assms(2)]
  by (cases cls; cases cls') (auto simp: word_le_nat_alt)

lemma set_filter_classes:
  "cls \<in> set (filter (enabled options) [Lowercase, Uppercase, Numbers, Symbols]) = enabled options cls"
  by (cases cls) auto

lemma generatePassword_body:
  assumes "add_class E (includeSymbols options) SYMBOLS
        (add_class E (includeNumbers options) NUMBERS
          (add_class E (includeUppercase options) UPPERCASE
            (add_class E (includeLowercase options) LOWERCASE ([], [], 0)))) = (charset, req, calls)"
    and "charset \<noteq> []"
    and "n = nat (max (length_opt options) (int (length req)) - int (length req))"
    and "pc = req @ map (\<lambda>value. [charset ! (unat value mod length charset)])
                     (map (random_values E 0) [0..<n])"
  shows "generatePassword E options =
     (if 65536 < 4 * n \<or> 65536 < 4 * length pc then Inl QuotaExceededError
      else Inr (concat (shuffle_loop (map (random_values E 1) [0..<length pc])
                          (length pc - 1) pc)))"
proof -
  have "generatePassword E options =
     (case getRandomValues32 (random_values E 0) n of
                Inl e \<Rightarrow> Inl e
              | Inr randomValues \<Rightarrow>
                  let passwordChars =
                        req @ map (\<lambda>value. [charset ! (unat value mod length charset)]) randomValues
                  in case getRandomValues32 (random_values E 1) (length passwordChars) of
                       Inl e \<Rightarrow> Inl e
                     | Inr shuffleValues \<Rightarrow>
                         Inr (concat (shuffle_loop shuffleValues (length passwordChars - 1)
                                        passwordChars)))"
    unfolding generatePassword_def assms(1) prod.case Let_def assms(3) using assms(2) by simp
  also have "\<dots> = (if 65536 < 4 * n \<or> 65536 < 4 * length pc then Inl QuotaExceededError
      else Inr (concat (shuffle_loop (map (random_values E 1) [0..<length pc])
                          (length pc - 1) pc)))"
    unfolding getRandomValues32_def assms(4) by (simp add: Let_def)
  finally show ?thesis .
qed

text \<open>
  Claim C7, as amended. Let the four draws of \<open>Math.random\<close> lie in \<open>[0, 1)\<close>. With
  no class switched on, the generator fails with its own error. With \<open>k > 0\<close> classes on
  and a requested length \<open>L\<close> such that \<open>max L k\<close> is at most 16384, it returns a string of
  exactly \<open>max L k\<close> code units that contains a character of every class that is on and
  none of a class that is off. Beyond 16384 it fails instead: \<open>crypto.getRandomValues\<close>
  refuses an array of more than 65536 bytes.
\<close>

theorem C7_generate:
  assumes rnd: "\<forall>n<4. 0 \<le> math_random E n \<and> math_random E n < 1"
  shows "(enabled_count options = 0 \<longrightarrow> generatePassword E options = Inl NoCharacterClass)
    \<and> (0 < enabled_count options
         \<and> max (length_opt options) (int (enabled_count options)) \<le> 16384 \<longrightarrow>
        (\<exists>pw. generatePassword E options = Inr pw
           \<and> int (length pw) = max (length_opt options) (int (enabled_count options))
           \<and> (\<forall>cls. enabled options cls \<longrightarrow> (\<exists>c\<in>set pw. c \<in> set (class_chars cls)))
           \<and> (\<forall>cls. \<not> enabled options cls \<longrightarrow> (\<forall>c\<in>set pw. c \<notin> set (class_chars cls)))))
    \<and> (0 < enabled_count options
         \<and> 16384 < max (length_opt options) (int (enabled_count options)) \<longrightarrow>
        generatePassword E options = Inl QuotaExceededError)"
proof -
  let ?en = "filter (enabled options) [Lowercase, Uppercase, Numbers, Symbols]"
  obtain charset req calls where st:
    "add_class E (includeSymbols options) SYMBOLS
        (add_class E (includeNumbers options) NUMBERS
          (add_class E (includeUppercase options) UPPERCASE
            (add_class E (includeLowercase options) LOWERCASE ([], [], 0)))) = (charset, req, calls)"
    by (metis prod_cases3)
  have col: "collected ?en (charset, req, calls)"
    using collected_all [OF rnd, of options] unfolding st .
  have len_req: "length req = enabled_count options"
    using col unfolding collected_def prod.case enabled_count_def by blast
  have cs: "set charset = (\<Union>cls\<in>set ?en. set (class_chars cls))"
    using col unfolding collected_def prod.case by blast
  have req_single: "\<forall>r\<in>set req. \<exists>c\<in>set charset. r = [c]"
    using col unfolding collected_def prod.case by blast
  have req_each: "\<forall>cls\<in>set ?en. \<exists>c\<in>set (class_chars cls). [c] \<in> set req"
    using col unfolding collected_def prod.case by blast
  define L where "L = max (length_opt options) (int (length req))"
  define n where "n = nat (L - int (length req))"
  define pc where "pc = req @ map (\<lambda>value. [charset ! (unat value mod length charset)])
                     (map (random_values E 0) [0..<n])"
  define sh where "sh = shuffle_loop (map (random_values E 1) [0..<length pc]) (length pc - 1) pc"
  have len_pc: "int (length pc) = L" by (simp add: pc_def n_def L_def)
  have body: "generatePassword E options =
     (if 65536 < 4 * n \<or> 65536 < 4 * length pc then Inl QuotaExceededError else Inr (concat sh))"
    if "charset \<noteq> []"
    unfolding sh_def
    by (rule generatePassword_body [OF st that n_def [unfolded L_def] pc_def])
  have p1: "generatePassword E options = Inl NoCharacterClass" if "enabled_count options = 0"
  proof -
    have "?en = []"
      using that unfolding enabled_count_def by (rule length_0_conv [THEN iffD1])
    then have "set charset = {}" unfolding cs by simp
    then have "length charset = 0" by simp
    then show ?thesis unfolding generatePassword_def st prod.case Let_def by (rule if_P)
  qed
  have ne: "charset \<noteq> []" if "0 < enabled_count options"
  proof -
    have "?en \<noteq> []"
      using that unfolding enabled_count_def by (rule length_greater_0_conv [THEN iffD1])
    then obtain cls where cls: "cls \<in> set ?en" by (meson last_in_set)
    obtain c where "c \<in> set (class_chars cls)"
      using class_chars_nonempty [of cls] by (meson last_in_set)
    then have "c \<in> set charset" unfolding cs using cls by (rule UN_I [rotated])
    then show ?thesis by auto
  qed
  have p3: "generatePassword E options = Inl QuotaExceededError"
    if "0 < enabled_count options" "16384 < L"
  proof -
    have "65536 < 4 * length pc" using that(2) len_pc by linarith
    then show ?thesis unfolding body [OF ne [OF that(1)]] by simp
  qed
  have p2: "\<exists>pw. generatePassword E options = Inr pw
           \<and> int (length pw) = L
           \<and> (\<forall>cls. enabled options cls \<longrightarrow> (\<exists>c\<in>set pw. c \<in> set (class_chars cls)))
           \<and> (\<forall>cls. \<not> enabled options cls \<longrightarrow> (\<forall>c\<in>set pw. c \<notin> set (class_chars cls)))"
    if "0 < enabled_count options" "L \<le> 16384"
  proof -
    have cne: "charset \<noteq> []" by (rule ne [OF that(1)])
    have "int (length req) \<le> L" unfolding L_def by simp
    then have "int n \<le> L" unfolding n_def by linarith
    then have q1: "\<not> 65536 < 4 * n" using that(2) by linarith
    have q2: "\<not> 65536 < 4 * length pc" using that(2) len_pc by linarith
    have gp: "generatePassword E options = Inr (concat sh)"
      unfolding body [OF cne] using q1 q2 by simp
    have "0 < length pc" using that(1) len_req by (simp add: pc_def)
    then have "length pc - 1 < length pc" by linarith
    then have ms: "mset sh = mset pc" unfolding sh_def by (rule shuffle_loop_mset)
    then have set_sh: "set sh = set pc" by (rule mset_eq_setD)
    have len_sh: "length sh = length pc" using ms by (rule mset_eq_length)
    have "charset ! (k mod length charset) \<in> set charset" for k
      using cne by simp
    then have pc_single: "\<forall>x\<in>set pc. \<exists>c\<in>set charset. x = [c]"
      using req_single unfolding pc_def by auto
    then have "\<forall>x\<in>set sh. \<exists>c. x = [c]" unfolding set_sh by blast
    then have "length (concat sh) = length sh" by (rule concat_singletons)
    then have a: "int (length (concat sh)) = L" using len_sh len_pc by simp
    have b: "\<exists>c\<in>set (concat sh). c \<in> set (class_chars cls)" if "enabled options cls" for cls
    proof -
      have "cls \<in> set ?en" using that by (simp only: set_filter_classes)
      then obtain c where c: "c \<in> set (class_chars cls)" "[c] \<in> set req"
        using req_each by blast
      then have "[c] \<in> set sh" unfolding set_sh pc_def by simp
      moreover have "c \<in> set [c]" by simp
      ultimately have "c \<in> set (concat sh)" unfolding set_concat by blast
      then show ?thesis using c(1) by blast
    qed
    have c: "c \<notin> set (class_chars cls)"
      if dis: "\<not> enabled options cls" and mem: "c \<in> set (concat sh)" for cls c
    proof
      assume in_cls: "c \<in> set (class_chars cls)"
      obtain x where x: "x \<in> set pc" "c \<in> set x" using mem unfolding set_concat set_sh by blast
      obtain c' where "c' \<in> set charset" "x = [c']" using pc_single x(1) by blast
      then have "c \<in> set charset" using x(2) by simp
      then obtain cls' where cls': "cls' \<in> set ?en" "c \<in> set (class_chars cls')"
        unfolding cs by blast
      have "cls = cls'" using in_cls cls'(2) by (rule class_chars_disjoint)
      moreover have "enabled options cls'" using cls'(1) by (simp only: set_filter_classes)
      ultimately show False using dis by simp
    qed
    show ?thesis using gp a b c by blast
  qed
  show ?thesis using p1 p2 p3 unfolding len_req L_def by blast
qed

lemmas generator_eval =
  generatePassword_def getRandomValues32_def random_char_def ref_entropy_def
  LOWERCASE_def UPPERCASE_def NUMBERS_def SYMBOLS_def js_def enabled_count_def

theorem C7_generate_witness:
  "list_all (\<lambda>n. 0 \<le> math_random ref_entropy n \<and> math_random ref_entropy n < 1) [0, 1, 2, 3]
   \<and> enabled_count \<lparr>length_opt = 2, includeLowercase = True, includeUppercase = False,
       includeNumbers = True, includeSymbols = True\<rparr> = 3
   \<and> (\<exists>pw. generatePassword ref_entropy
         \<lparr>length_opt = 2, includeLowercase = True, includeUppercase = False,
          includeNumbers = True, includeSymbols = True\<rparr> = Inr pw \<and> length pw = 3)"
  using C7_generate [of ref_entropy
      "\<lparr>length_opt = 2, includeLowercase = True, includeUppercase = False,
        includeNumbers = True, includeSymbols = True\<rparr>"]
  by (simp add: enabled_count_def ref_entropy_def) blast

text \<open>
  The claim as stated fails for long passwords: with all four classes on and a requested
  length of 20000 the generator asks \<open>crypto.getRandomValues\<close> for 19996 32-bit values
  and the call throws.
\<close>

theorem C7_counterexample:
  "enabled_count \<lparr>length_opt = 20000, includeLowercase = True, includeUppercase = True,
       includeNumbers = True, includeSymbols = True\<rparr> = 4
   \<and> generatePassword ref_entropy
         \<lparr>length_opt = 20000, includeLowercase = True, includeUppercase = True,
          includeNumbers = True, includeSymbols = True\<rparr> = Inl QuotaExceededError"
  by (simp add: generator_eval)

section \<open>Properties of the encodings\<close>

subsection \<open>atob undoes btoa\<close>

lemma index_of_nth: "distinct xs \<Longrightarrow> i < length xs \<Longrightarrow> index_of (xs ! i) xs = Some i"
proof (induction xs arbitrary: i)
  case Nil
  then show ?case by simp
next
  case (Cons y ys)
  show ?case
  proof (cases i)
    case 0
    then show ?thesis by simp
  next
    case (Suc k)
    then have "ys ! k \<in> set ys" using Cons.prems by simp
    then have "ys ! k \<noteq> y" using Cons.prems by auto
    then show ?thesis using Suc Cons by simp
  qed
qed

lemma base64_alphabet_distinct: "distinct base64_alphabet"
  by (simp add: base64_alphabet_def js_def)

lemma base64_alphabet_length: "length base64_alphabet = 64"
  by (simp add: base64_alphabet_def js_def)

lemma base64_alphabet_plain:
  "c \<in> set base64_alphabet \<Longrightarrow> c \<noteq> 0x3D \<and> \<not> ascii_whitespace c"
  unfolding base64_alphabet_def js_def ascii_whitespace_def
  by (simp, elim disjE; simp)

lemma index_of_base64_char: "i < 64 \<Longrightarrow> index_of (base64_char i) base64_alphabet = Some i"
  unfolding base64_char_def
  by (rule index_of_nth [OF base64_alphabet_distinct]) (simp add: base64_alphabet_length)

lemma base64_char_plain:
  assumes "i < 64"
  shows "base64_char i \<noteq> 0x3D" and "\<not> ascii_whitespace (base64_char i)"
proof -
  have "base64_char i \<in> set base64_alphabet"
    unfolding base64_char_def using assms by (simp add: base64_alphabet_length)
  then show "base64_char i \<noteq> 0x3D" and "\<not> ascii_whitespace (base64_char i)"
    using base64_alphabet_plain by blast+
qed

lemma strip_padding_append:
  "2 \<le> length xs \<Longrightarrow> strip_padding (p @ xs) = p @ strip_padding xs"
proof -
  assume "2 \<le> length xs"
  then obtain c d r where r: "rev xs = c # d # r"
    by (cases "rev xs"; cases "tl (rev xs)") (auto simp: Suc_le_eq dest: arg_cong [where f = length])
  then have xs: "xs = rev r @ [d, c]" by (metis append.assoc append_Cons append_Nil rev.simps(2) rev_rev_ident)
  show ?thesis
    unfolding strip_padding_def by (simp add: xs)
qed

lemma strip_padding_plain: "xs \<noteq> [] \<Longrightarrow> last xs \<noteq> 0x3D \<Longrightarrow> strip_padding xs = xs"
  unfolding strip_padding_def
  by (cases xs rule: rev_cases) auto

lemma sextets_append:
  "sextets xs = Some g \<Longrightarrow> sextets ys = Some h \<Longrightarrow> sextets (xs @ ys) = Some (g @ h)"
  by (induction xs arbitrary: g) (auto split: option.splits)

lemma sextets_chars:
  "list_all (\<lambda>i. i < 64) is \<Longrightarrow> sextets (map base64_char is) = Some is"
  by (induction "is") (simp_all add: index_of_base64_char)

lemma digit_div: "y < k \<Longrightarrow> (x * k + y) div k = (x::nat)"
  by simp

lemma digit_mod: "y < k \<Longrightarrow> (x * k + y) mod k = (y::nat)"
  by simp

lemma b64_arith:
  fixes a b c :: nat
  assumes "a < 256" "b < 256" "c < 256"
  shows "a div 4 < 64" "a mod 4 * 16 + b div 16 < 64" "b mod 16 * 4 + c div 64 < 64" "c mod 64 < 64"
    "a div 4 * 4 + (a mod 4 * 16 + b div 16) div 16 = a"
    "(a mod 4 * 16 + b div 16) mod 16 * 16 + (b mod 16 * 4 + c div 64) div 4 = b"
    "(b mod 16 * 4 + c div 64) mod 4 * 64 + c mod 64 = c"
proof -
  have a0: "a mod 4 < 4" and b0: "b mod 16 < 16" and c0: "c mod 64 < 64" by simp_all
  have a1: "a div 4 < 64" using assms(1) by (intro less_mult_imp_div_less) simp
  have b1: "b div 16 < 16" using assms(2) by (intro less_mult_imp_div_less) simp
  have c1: "c div 64 < 4" using assms(3) by (intro less_mult_imp_div_less) simp
  show "a div 4 < 64" by (rule a1)
  show "a mod 4 * 16 + b div 16 < 64" using a0 b1 by linarith
  show "b mod 16 * 4 + c div 64 < 64" using b0 c1 by linarith
  show "c mod 64 < 64" by (rule c0)
  show "a div 4 * 4 + (a mod 4 * 16 + b div 16) div 16 = a"
    unfolding digit_div [OF b1] by simp
  show "(a mod 4 * 16 + b div 16) mod 16 * 16 + (b mod 16 * 4 + c div 64) div 4 = b"
    unfolding digit_mod [OF b1] digit_div [OF c1] by simp
  show "(b mod 16 * 4 + c div 64) mod 4 * 64 + c mod 64 = c"
    unfolding digit_mod [OF c1] by simp
qed

lemma b64_arith2:
  fixes a b :: nat
  assumes "a < 256" "b < 256"
  shows "a mod 4 * 16 < 64"  "b mod 16 * 4 < 64"
    "a div 4 * 4 + (a mod 4 * 16) div 16 = a"
    "(a mod 4 * 16 + b div 16) mod 16 * 16 + (b mod 16 * 4) div 4 = b"
proof -
  have a0: "a mod 4 < 4" and b0: "b mod 16 < 16" by simp_all
  have b1: "b div 16 < 16" using assms(2) by (intro less_mult_imp_div_less) simp
  show "a mod 4 * 16 < 64" using a0 by linarith
  show "b mod 16 * 4 < 64" using b0 by linarith
  show "a div 4 * 4 + (a mod 4 * 16) div 16 = a" by simp
  show "(a mod 4 * 16 + b div 16) mod 16 * 16 + (b mod 16 * 4) div 4 = b"
    unfolding digit_mod [OF b1] by simp
qed

lemma btoa_loop_long: "bs \<noteq> [] \<Longrightarrow> 2 \<le> length (btoa_loop bs)"
  by (cases bs rule: btoa_loop.cases) simp_all

lemma not_whitespace_pad: "\<not> ascii_whitespace 0x3D"
  by (simp add: ascii_whitespace_def)

lemma padded_group:
  assumes "s1 < 64" "s2 < 64" "s3 < 64"
  shows "filter (\<lambda>c. \<not> ascii_whitespace c) [base64_char s1, base64_char s2, base64_char s3, 0x3D]
           = [base64_char s1, base64_char s2, base64_char s3, 0x3D]"
    and "strip_padding [base64_char s1, base64_char s2, base64_char s3, 0x3D]
           = [base64_char s1, base64_char s2, base64_char s3]"
    and "sextets [base64_char s1, base64_char s2, base64_char s3] = Some [s1, s2, s3]"
    and "filter (\<lambda>c. \<not> ascii_whitespace c) [base64_char s1, base64_char s2, 0x3D, 0x3D]
           = [base64_char s1, base64_char s2, 0x3D, 0x3D]"
    and "strip_padding [base64_char s1, base64_char s2, 0x3D, 0x3D]
           = [base64_char s1, base64_char s2]"
    and "sextets [base64_char s1, base64_char s2] = Some [s1, s2]"
  using assms
  by (simp_all add: base64_char_plain not_whitespace_pad strip_padding_def index_of_base64_char)

lemma btoa_loop_decodes:
  assumes "list_all (\<lambda>b. b < 256) bs"
  shows "length (btoa_loop bs) mod 4 = 0
       \<and> filter (\<lambda>c. \<not> ascii_whitespace c) (btoa_loop bs) = btoa_loop bs
       \<and> length (strip_padding (btoa_loop bs)) mod 4 \<noteq> 1
       \<and> (\<exists>g. sextets (strip_padding (btoa_loop bs)) = Some g \<and> atob_loop g = bs)"
  using assms
proof (induction bs rule: btoa_loop.induct)
  case (1 a b c rest)
  then have lt: "a < 256" "b < 256" "c < 256" and rest: "list_all (\<lambda>b. b < 256) rest"
    by simp_all
  note ar = b64_arith [OF lt]
  let ?is = "[a div 4, a mod 4 * 16 + b div 16, b mod 16 * 4 + c div 64, c mod 64]"
  let ?F = "map base64_char ?is"
  have enc: "btoa_loop (a # b # c # rest) = ?F @ btoa_loop rest" by simp
  have sF: "sextets ?F = Some ?is"
    by (rule sextets_chars) (simp add: ar)
  have wsF: "filter (\<lambda>c. \<not> ascii_whitespace c) ?F = ?F"
    by (simp add: ar base64_char_plain)
  have dec: "atob_loop (?is @ g) = [a, b, c] @ atob_loop g" for g
    unfolding append_Cons append_Nil atob_loop.simps(1) ar(5) ar(6) ar(7) ..
  from 1(1) [OF rest] obtain g where ih:
    "length (btoa_loop rest) mod 4 = 0"
    "filter (\<lambda>c. \<not> ascii_whitespace c) (btoa_loop rest) = btoa_loop rest"
    "length (strip_padding (btoa_loop rest)) mod 4 \<noteq> 1"
    "sextets (strip_padding (btoa_loop rest)) = Some g" "atob_loop g = rest"
    by (elim conjE exE) (rule that, assumption+)
  have strip: "strip_padding (?F @ btoa_loop rest) = ?F @ strip_padding (btoa_loop rest)"
  proof (cases "rest = []")
    case True
    have "strip_padding ?F = ?F"
      by (rule strip_padding_plain) (simp_all add: ar base64_char_plain)
    then show ?thesis using True by (simp add: strip_padding_def)
  next
    case False
    then show ?thesis by (intro strip_padding_append btoa_loop_long)
  qed
  have s: "sextets (?F @ strip_padding (btoa_loop rest)) = Some (?is @ g)"
    by (rule sextets_append [OF sF ih(4)])
  have c1: "length (?F @ btoa_loop rest) mod 4 = 0" using ih(1) by simp
  have c2: "filter (\<lambda>c. \<not> ascii_whitespace c) (?F @ btoa_loop rest) = ?F @ btoa_loop rest"
    by (simp only: filter_append wsF ih(2))
  have c3: "length (?F @ strip_padding (btoa_loop rest)) mod 4 \<noteq> 1" using ih(3) by simp
  have c4: "atob_loop (?is @ g) = a # b # c # rest" unfolding dec ih(5) by simp
  show ?case
    unfolding enc strip s using c1 c2 c3 c4 by (intro conjI exI [of _ "?is @ g"]) simp_all
next
  case (2 a b)
  then have lt: "a < 256" "b < 256" by simp_all
  note ar = b64_arith2 [OF lt] b64_arith(1,2) [OF lt lt(1)]
  note pg = padded_group(1,2,3) [OF ar(5) ar(6) ar(2)]
  have "atob_loop [a div 4, a mod 4 * 16 + b div 16, b mod 16 * 4] = [a, b]"
    unfolding atob_loop.simps b64_arith(5) [OF lt lt(1)] ar(4) ..
  then show ?case
    unfolding btoa_loop.simps pg by simp
next
  case (3 a)
  then have lt: "a < 256" by simp
  note ar = b64_arith2 [OF lt lt] b64_arith(1) [OF lt lt lt]
  note pg = padded_group(4,5,6) [OF ar(5) ar(1) ar(1)]
  have "atob_loop [a div 4, a mod 4 * 16] = [a]"
    unfolding atob_loop.simps ar(3) ..
  then show ?case
    unfolding btoa_loop.simps pg by simp
next
  case 4
  then show ?case by (simp add: strip_padding_def)
qed

lemma atob_btoa: "atob_bytes (btoa_loop (map unat combined)) = Inr combined"
  for combined :: bytes
proof -
  have "list_all (\<lambda>b. b < 256) (map unat combined)"
  proof -
    have "unat b < 256" for b :: "8 word"
      using unsigned_less [of b, where 'a = nat] by simp
    then show ?thesis unfolding list_all_iff by simp
  qed
  from btoa_loop_decodes [OF this] obtain g where d:
    "length (btoa_loop (map unat combined)) mod 4 = 0"
    "filter (\<lambda>c. \<not> ascii_whitespace c) (btoa_loop (map unat combined)) = btoa_loop (map unat combined)"
    "length (strip_padding (btoa_loop (map unat combined))) mod 4 \<noteq> 1"
    "sextets (strip_padding (btoa_loop (map unat combined))) = Some g"
    "atob_loop g = map unat combined"
    by (elim conjE exE) (rule that, assumption+)
  have "map of_nat (map unat combined) = combined"
    by (simp add: map_idI)
  then show ?thesis
    unfolding atob_bytes_def Let_def d(2) using d(1,3,4,5) by simp
qed

lemma btoa_fromCharCode: "btoa (map ucast combined) = Inr (btoa_loop (map unat combined))"
  for combined :: bytes
proof -
  have lt: "unat b < 256" for b :: "8 word"
    using unsigned_less [of b, where 'a = nat] by simp
  have u: "unat (ucast b :: 16 word) = unat b" for b :: "8 word"
    using lt [of b] by (simp add: unsigned_ucast_eq take_bit_nat_eq_self)
  have "\<not> 0xFF < (ucast b :: 16 word)" for b :: "8 word"
    using lt [of b] u [of b] by (simp add: word_less_nat_alt)
  then have nl: "\<not> list_ex (\<lambda>c. 0xFF < c) (map ucast combined :: jsstring)"
    by (simp add: list_ex_iff)
  have m: "map unat (map ucast combined :: jsstring) = map unat combined"
    using u by simp
  show ?thesis unfolding btoa_def m using nl by simp
qed

subsection \<open>TextDecoder undoes TextEncoder\<close>

lemma utf8_decode_2:
  assumes "2 \<le> d1" "d1 < 32" "d0 < 64"
  shows "utf8_decode 0 0 0 0x80 0xBF ((0xC0 + d1) # (0x80 + d0) # rest)
         = (d1 * 64 + d0) # utf8_decode 0 0 0 0x80 0xBF rest"
proof -
  have m1: "(0xC0 + d1) mod 0x20 = d1"
    using digit_mod [OF assms(2), of 6] by (simp add: add.commute)
  have m0: "(0x80 + d0) mod 0x40 = d0"
    using digit_mod [OF assms(3), of 2] by (simp add: add.commute)
  show ?thesis using assms by (simp add: m1 m0)
qed

lemma utf8_decode_3:
  assumes "d2 < 16" "d1 < 64" "d0 < 64" "d2 = 0 \<longrightarrow> 32 \<le> d1" "d2 = 13 \<longrightarrow> d1 < 32"
  shows "utf8_decode 0 0 0 0x80 0xBF ((0xE0 + d2) # (0x80 + d1) # (0x80 + d0) # rest)
         = ((d2 * 64 + d1) * 64 + d0) # utf8_decode 0 0 0 0x80 0xBF rest"
proof -
  have m2: "(0xE0 + d2) mod 0x10 = d2"
    using digit_mod [OF assms(1), of 14] by (simp add: add.commute)
  have m1: "(0x80 + d1) mod 0x40 = d1"
    using digit_mod [OF assms(2), of 2] by (simp add: add.commute)
  have m0: "(0x80 + d0) mod 0x40 = d0"
    using digit_mod [OF assms(3), of 2] by (simp add: add.commute)
  show ?thesis using assms by (auto simp: m2 m1 m0)
qed

lemma utf8_decode_4:
  assumes "d3 < 5" "d2 < 64" "d1 < 64" "d0 < 64" "d3 = 0 \<longrightarrow> 16 \<le> d2" "d3 = 4 \<longrightarrow> d2 < 16"
  shows "utf8_decode 0 0 0 0x80 0xBF
            ((0xF0 + d3) # (0x80 + d2) # (0x80 + d1) # (0x80 + d0) # rest)
         = (((d3 * 64 + d2) * 64 + d1) * 64 + d0) # utf8_decode 0 0 0 0x80 0xBF rest"
proof -
  have "d3 < 8" using assms(1) by simp
  then have m3: "(0xF0 + d3) mod 0x08 = d3"
    using digit_mod [of d3 8 30] by (simp add: add.commute)
  have m2: "(0x80 + d2) mod 0x40 = d2"
    using digit_mod [OF assms(2), of 2] by (simp add: add.commute)
  have m1: "(0x80 + d1) mod 0x40 = d1"
    using digit_mod [OF assms(3), of 2] by (simp add: add.commute)
  have m0: "(0x80 + d0) mod 0x40 = d0"
    using digit_mod [OF assms(4), of 2] by (simp add: add.commute)
  show ?thesis using assms by (auto simp: m3 m2 m1 m0)
qed

lemma utf8_bytes_decode:
  assumes "scalar_value cp"
  shows "utf8_decode 0 0 0 0x80 0xBF (utf8_bytes cp @ rest) = cp # utf8_decode 0 0 0 0x80 0xBF rest"
proof -
  define q1 where "q1 = cp div 0x40"
  define q2 where "q2 = cp div 0x1000"
  define q3 where "q3 = cp div 0x40000"
  have e0: "cp = q1 * 64 + cp mod 0x40" unfolding q1_def by simp
  have q12: "q2 = q1 div 64" unfolding q1_def q2_def by (simp add: div_mult2_eq)
  have q23: "q3 = q2 div 64" unfolding q2_def q3_def by (simp add: div_mult2_eq)
  have e1: "q1 = q2 * 64 + q1 mod 64" unfolding q12 by simp
  have e2: "q2 = q3 * 64 + q2 mod 64" unfolding q23 by simp
  have b0: "cp mod 0x40 < 64" and b1: "q1 mod 64 < 64" and b2: "q2 mod 64 < 64" by simp_all
  consider "cp < 0x80" | "0x80 \<le> cp" "cp < 0x800" | "0x800 \<le> cp" "cp < 0x10000" | "0x10000 \<le> cp"
    by linarith
  then show ?thesis
  proof cases
    case 1
    then show ?thesis by (simp add: utf8_bytes_def)
  next
    case 2
    have "2 \<le> q1" "q1 < 32" using 2 e0 b0 by linarith+
    from utf8_decode_2 [OF this b0, of rest] show ?thesis
      using 2 e0 by (simp add: utf8_bytes_def q1_def)
  next
    case 3
    have r: "q2 < 16" "q2 = 0 \<longrightarrow> 32 \<le> q1 mod 64" "q2 = 13 \<longrightarrow> q1 mod 64 < 32"
      using 3 e0 e1 b0 b1 assms unfolding scalar_value_def by linarith+
    have "(q2 * 64 + q1 mod 64) * 64 + cp mod 0x40 = cp" using e0 e1 by simp
    with utf8_decode_3 [OF r(1) b1 b0 r(2,3), of rest] show ?thesis
      using 3 by (simp add: utf8_bytes_def q1_def q2_def)
  next
    case 4
    have r: "q3 < 5" "q3 = 0 \<longrightarrow> 16 \<le> q2 mod 64" "q3 = 4 \<longrightarrow> q2 mod 64 < 16"
      using 4 e0 e1 e2 b0 b1 b2 assms unfolding scalar_value_def by linarith+
    have "((q3 * 64 + q2 mod 64) * 64 + q1 mod 64) * 64 + cp mod 0x40 = cp"
      using e0 e1 e2 by simp
    with utf8_decode_4 [OF r(1) b2 b1 b0 r(2,3), of rest] show ?thesis
      using 4 by (simp add: utf8_bytes_def q1_def q2_def q3_def)
  qed
qed

lemma utf8_bytes_small: "cp < 0x110000 \<Longrightarrow> list_all (\<lambda>b. b < 256) (utf8_bytes cp)"
proof -
  assume a: "cp < 0x110000"
  have m: "x mod 0x40 < 64" for x :: nat by simp
  have "cp < 0x800 \<Longrightarrow> cp div 0x40 < 32" by (intro less_mult_imp_div_less) simp
  moreover have "cp < 0x10000 \<Longrightarrow> cp div 0x1000 < 16" by (intro less_mult_imp_div_less) simp
  moreover have "cp div 0x40000 < 5" using a by (intro less_mult_imp_div_less) simp
  ultimately show ?thesis
    using m [of cp] m [of "cp div 0x40"] m [of "cp div 0x1000"]
    by (auto simp: utf8_bytes_def)
qed

lemma unat_16_less: "unat (c :: 16 word) < 0x10000"
  using unsigned_less [of c, where 'a = nat] by simp

lemma surrogate_nat:
  "high_surrogate c \<longleftrightarrow> 0xD800 \<le> unat c \<and> unat c \<le> 0xDBFF"
  "low_surrogate c \<longleftrightarrow> 0xDC00 \<le> unat c \<and> unat c \<le> 0xDFFF"
  by (simp_all add: high_surrogate_def low_surrogate_def word_le_nat_alt)

lemma scalar_unit:
  "\<not> high_surrogate c \<Longrightarrow> \<not> low_surrogate c \<Longrightarrow> scalar_value (unat c)"
  using unat_16_less [of c] unfolding surrogate_nat scalar_value_def by linarith

lemma scalar_pair:
  "high_surrogate c \<Longrightarrow> low_surrogate d \<Longrightarrow>
     scalar_value (0x10000 + (unat c - 0xD800) * 0x400 + (unat d - 0xDC00))"
  unfolding surrogate_nat scalar_value_def by linarith

lemma scalar_values_scalar: "list_all scalar_value (scalar_values s)"
proof (induction s rule: scalar_values.induct)
  case 1
  then show ?case by simp
next
  case (2 c)
  have "scalar_value 0xFFFD" by (simp add: scalar_value_def)
  then show ?case using scalar_unit [of c] by auto
next
  case (3 c d s)
  have "scalar_value 0xFFFD" by (simp add: scalar_value_def)
  then show ?case using 3 scalar_pair [of c d] scalar_unit [of c]
    by simp
qed

lemma utf8_decode_concat:
  "list_all scalar_value cps \<Longrightarrow>
     utf8_decode 0 0 0 0x80 0xBF (concat (map utf8_bytes cps)) = cps"
  by (induction cps) (simp_all add: utf8_bytes_decode)

lemma unat_of_nat_bytes:
  "list_all (\<lambda>b. b < 256) bs \<Longrightarrow> map unat (map of_nat bs :: 8 word list) = bs"
  by (induction bs) (simp_all add: unat_of_nat)

lemma utf8_bytes_concat_small:
  "list_all scalar_value cps \<Longrightarrow> list_all (\<lambda>b. b < 256) (concat (map utf8_bytes cps))"
proof (induction cps)
  case Nil
  then show ?case by simp
next
  case (Cons cp cps)
  then have "cp < 0x110000" by (auto simp: scalar_value_def)
  then show ?case using Cons utf8_bytes_small [of cp] by simp
qed

lemma decode_encode_scalars:
  "utf8_decode 0 0 0 0x80 0xBF (map unat (TextEncoder_encode s)) = scalar_values s"
  unfolding TextEncoder_encode_def
  by (simp only: unat_of_nat_bytes [OF utf8_bytes_concat_small [OF scalar_values_scalar]]
        utf8_decode_concat [OF scalar_values_scalar])

lemma utf16_units_unit:
  "utf16_units (unat (c :: 16 word)) = [c]"
  using unat_16_less [of c] by (simp add: utf16_units_def)

lemma utf16_units_pair:
  assumes "high_surrogate c" "low_surrogate d"
  shows "utf16_units (0x10000 + (unat c - 0xD800) * 0x400 + (unat d - 0xDC00)) = [c, d]"
proof -
  define h where "h = unat c - 0xD800"
  define l where "l = unat d - 0xDC00"
  have hl: "l < 0x400" "unat c = 0xD800 + h" "unat d = 0xDC00 + l"
    using assms unfolding surrogate_nat h_def l_def by linarith+
  have "(h * 0x400 + l) div 0x400 = h" "(h * 0x400 + l) mod 0x400 = l"
    using hl(1) by simp_all
  then have "utf16_units (0x10000 + h * 0x400 + l) = [of_nat (unat c), of_nat (unat d)]"
    unfolding hl(2,3) by (simp add: utf16_units_def)
  then show ?thesis unfolding h_def l_def by simp
qed

lemma utf16_scalar_values:
  "isWellFormed s \<Longrightarrow> concat (map utf16_units (scalar_values s)) = s"
proof (induction s rule: scalar_values.induct)
  case 1
  then show ?case by simp
next
  case (2 c)
  then show ?case by (simp add: utf16_units_unit)
next
  case (3 c d s)
  show ?case
  proof (cases "high_surrogate c")
    case True
    then show ?thesis using 3 by (simp add: utf16_units_pair)
  next
    case False
    then show ?thesis using 3 by (simp add: utf16_units_unit)
  qed
qed

lemma first_scalar_value:
  "scalar_values s = cp # cps \<Longrightarrow> cp = 0xFEFF \<longleftrightarrow> startsWith s [0xFEFF]"
proof (induction s rule: scalar_values.induct)
  case 1
  then show ?case by simp
next
  case (2 c)
  have "unat c = 0xFEFF \<longleftrightarrow> c = 0xFEFF" by (simp add: word_unat_eq_iff)
  then show ?case using 2 by (auto split: if_splits simp: high_surrogate_def low_surrogate_def)
next
  case (3 c d s)
  have "unat c = 0xFEFF \<longleftrightarrow> c = 0xFEFF" by (simp add: word_unat_eq_iff)
  then show ?case using 3(3) by (auto split: if_splits simp: high_surrogate_def low_surrogate_def)
qed

text \<open>The UTF-8 encoding of a string has from one to three bytes for each code unit.\<close>

lemma length_utf8_bytes: "1 \<le> length (utf8_bytes cp)" "cp < 0x10000 \<Longrightarrow> length (utf8_bytes cp) \<le> 3"
  "length (utf8_bytes cp) \<le> 4" "0x10000 \<le> cp \<Longrightarrow> 2 \<le> length (utf8_bytes cp)"
  by (simp_all add: utf8_bytes_def)

lemma unat_code_unit: "unat c < 0x10000" for c :: "16 word"
  using unsigned_less [of c, where 'a = nat] by simp

lemma length_TextEncoder_encode:
  "length s \<le> length (TextEncoder_encode s) \<and> length (TextEncoder_encode s) \<le> 3 * length s"
proof -
  have "length s \<le> length (concat (map utf8_bytes (scalar_values s)))
      \<and> length (concat (map utf8_bytes (scalar_values s))) \<le> 3 * length s"
  proof (induction s rule: scalar_values.induct)
    case 1
    then show ?case by simp
  next
    case (2 c)
    show ?case
      using length_utf8_bytes(1) [of "unat c"] length_utf8_bytes(2) [OF unat_code_unit [of c]]
        length_utf8_bytes(1) [of "0xFFFD"] length_utf8_bytes(2) [of "0xFFFD"]
      by simp
  next
    case (3 c d s)
    show ?case
    proof (cases "high_surrogate c \<and> low_surrogate d")
      case True
      define cp where "cp = 0x10000 + (unat c - 0xD800) * 0x400 + (unat d - 0xDC00)"
      have "0x10000 \<le> cp" by (simp add: cp_def)
      then have "2 \<le> length (utf8_bytes cp)" by (rule length_utf8_bytes(4))
      moreover have "length (utf8_bytes cp) \<le> 4" by (rule length_utf8_bytes(3))
      moreover have "scalar_values (c # d # s) = cp # scalar_values s"
        using True by (simp add: cp_def)
      ultimately show ?thesis using 3(1) [OF True] by simp
    next
      case False
      define cp where "cp = (if high_surrogate c \<or> low_surrogate c then 0xFFFD else unat c)"
      have "cp < 0x10000" using unat_code_unit [of c] by (simp add: cp_def)
      then have "length (utf8_bytes cp) \<le> 3" by (rule length_utf8_bytes(2))
      moreover have "1 \<le> length (utf8_bytes cp)" by (rule length_utf8_bytes(1))
      moreover have "scalar_values (c # d # s) = cp # scalar_values (d # s)"
        using False by (simp add: cp_def)
      ultimately show ?thesis using 3(2) [OF False] by simp
    qed
  qed
  then show ?thesis by (simp add: TextEncoder_encode_def)
qed

section \<open>Properties of encrypt, decrypt and the verifier\<close>

lemma TextDecoder_TextEncoder:
  assumes "isWellFormed s" and "\<not> startsWith s [0xFEFF]"
  shows "TextDecoder_decode (TextEncoder_encode s) = s"
proof (cases "scalar_values s")
  case Nil
  then show ?thesis
    using utf16_scalar_values [OF assms(1)]
    by (simp add: TextDecoder_decode_def decode_encode_scalars)
next
  case (Cons cp cps)
  then have "cp \<noteq> 0xFEFF" using first_scalar_value [OF Cons] assms(2) by simp
  then show ?thesis
    using utf16_scalar_values [OF assms(1)] Cons
    by (simp add: TextDecoder_decode_def decode_encode_scalars)
qed

lemma length_random_bytes: "length (random_bytes src n) = n"
  by (simp add: random_bytes_def)

text \<open>
  \<open>encrypt\<close> returns exactly when the sealed bytes fit into one call, and throws
  \<open>RangeError\<close> otherwise.
\<close>

lemma encrypt_cases:
  "encrypt P E p k =
     (if seal_fits P E p k
      then Inr (btoa_loop (map unat
             (random_bytes (salt_source E) SALT_LENGTH @ random_bytes (iv_source E) IV_LENGTH
              @ gcm_encrypt P
                  (pbkdf2 P (TextEncoder_encode k) (random_bytes (salt_source E) SALT_LENGTH))
                  (random_bytes (iv_source E) IV_LENGTH) (TextEncoder_encode p))))
      else Inl RangeError)"
proof -
  define combined where "combined =
      random_bytes (salt_source E) SALT_LENGTH @ random_bytes (iv_source E) IV_LENGTH
      @ gcm_encrypt P
          (pbkdf2 P (TextEncoder_encode k) (random_bytes (salt_source E) SALT_LENGTH))
          (random_bytes (iv_source E) IV_LENGTH) (TextEncoder_encode p)"
  have enc: "encrypt P E p k =
      (case String_fromCharCode (argument_limit P) combined of
         Inl e \<Rightarrow> Inl e
       | Inr binary \<Rightarrow> btoa binary)"
    by (simp add: encrypt_def deriveKey_def Let_def combined_def)
  have fits: "seal_fits P E p k \<longleftrightarrow> length combined \<le> argument_limit P"
    by (simp add: seal_fits_def Let_def combined_def length_random_bytes add.assoc)
  show ?thesis
    unfolding enc fits combined_def [symmetric]
    by (simp add: String_fromCharCode_def btoa_fromCharCode not_less)
qed

lemma encrypt_RangeError: "\<not> seal_fits P E p k \<Longrightarrow> encrypt P E p k = Inl RangeError"
  by (simp add: encrypt_cases)

lemma encrypt_Inr: "encrypt P E p k = Inr c \<Longrightarrow> seal_fits P E p k"
  by (simp add: encrypt_cases split: if_splits)

lemma encrypt_fits: "seal_fits P E p k \<Longrightarrow> \<exists>c. encrypt P E p k = Inr c"
  by (simp add: encrypt_cases)

lemma decrypt_encrypt:
  assumes "encrypt P E p k = Inr c" and "opens_own_seal P E p k"
  shows "decrypt P c k = Inr (TextDecoder_decode (TextEncoder_encode p))"
proof -
  define salt where "salt = random_bytes (salt_source E) SALT_LENGTH"
  define iv where "iv = random_bytes (iv_source E) IV_LENGTH"
  define key where "key = pbkdf2 P (TextEncoder_encode k) salt"
  define ct where "ct = gcm_encrypt P key iv (TextEncoder_encode p)"
  have enc: "c = btoa_loop (map unat (salt @ iv @ ct))"
    using assms(1) unfolding encrypt_cases salt_def iv_def key_def ct_def
    by (simp split: if_splits)
  have ls: "length salt = SALT_LENGTH" and li: "length iv = IV_LENGTH"
    by (simp_all add: salt_def iv_def length_random_bytes)
  have parts: "take SALT_LENGTH (salt @ iv @ ct) = salt"
    "take IV_LENGTH (drop SALT_LENGTH (salt @ iv @ ct)) = iv"
    "drop (SALT_LENGTH + IV_LENGTH) (salt @ iv @ ct) = ct"
    using ls li by simp_all
  have opens: "gcm_decrypt P key iv ct = Some (TextEncoder_encode p)"
    using assms(2) unfolding opens_own_seal_def Let_def ct_def key_def iv_def salt_def .
  have "decrypt P (btoa_loop (map unat (salt @ iv @ ct))) k =
      (case gcm_decrypt P key iv ct of
         None \<Rightarrow> Inl OperationError
       | Some plaintextBuffer \<Rightarrow> Inr (TextDecoder_decode plaintextBuffer))"
    unfolding decrypt_def atob_btoa sum.case Let_def parts deriveKey_def option.case prod.case
      key_def ..
  then show ?thesis unfolding enc opens by simp
qed



lemma toy_round_trip: "toy_decrypt key iv (toy_encrypt key iv m) = Some m"
  by (simp add: toy_decrypt_def toy_encrypt_def toy_tag_def)

lemma ref_platform_opens: "opens_own_seal ref_platform E p k"
  by (simp add: opens_own_seal_def ref_platform_def toy_round_trip)

text \<open>On the reference platform the sealed bytes are 44 more than the encoded plaintext.\<close>

lemma ref_seal_fits:
  "seal_fits ref_platform E p k \<longleftrightarrow> length (TextEncoder_encode p) + 44 \<le> 65536"
  by (auto simp: seal_fits_def ref_platform_def toy_encrypt_def toy_tag_def SALT_LENGTH_def
        IV_LENGTH_def Let_def)

lemma ref_seal_fits_short: "length p \<le> 21000 \<Longrightarrow> seal_fits ref_platform E p k"
  using length_TextEncoder_encode [of p] by (simp add: ref_seal_fits)


lemma example_seal:
  "length p \<le> 21000 \<Longrightarrow> encrypt ref_platform E p (js ''master'') = Inr (example_seal E p)"
  using encrypt_fits [OF ref_seal_fits_short, of p E "js ''master''"]
  by (auto simp: example_seal_def)


lemma long_notes_plain: "isWellFormed long_notes" "\<not> startsWith long_notes [0xFEFF]"
proof -
  have "isWellFormed (replicate n (0x61 :: 16 word))" for n
  proof (induction n)
    case 0
    then show ?case by simp
  next
    case (Suc n)
    then show ?case
      by (cases n) (simp_all add: high_surrogate_def low_surrogate_def)
  qed
  then show "isWellFormed long_notes" by (simp add: long_notes_def)
  have e: "long_notes = 0x61 # replicate 124999 0x61"
    unfolding long_notes_def by (simp add: replicate_Suc [symmetric] del: replicate_Suc)
  show "\<not> startsWith long_notes [0xFEFF]" unfolding e by simp
qed

lemma verificationString_plain:
  "isWellFormed verificationString" "\<not> startsWith verificationString [0xFEFF]"
  by (simp_all add: verificationString_def js_def high_surrogate_def low_surrogate_def)

lemma length_verificationString: "length verificationString = 28"
  by (simp add: verificationString_def js_def)




text \<open>
  Claim C2. When the platform's AES-GCM opens what it sealed, \<open>verifyPassword\<close> accepts
  the verifier that \<open>createPasswordVerifier\<close> made for the same password; and
  \<open>createPasswordVerifier\<close> does return a verifier, the sealed verification string (72
  bytes with AES-GCM) being within the size that \<open>encrypt\<close> can handle. For every
  password and every verifier text, \<open>verifyPassword\<close> returns true exactly when
  \<open>decrypt\<close> succeeds and gives the verification string; and it always returns a
  boolean, never an exception.
\<close>

theorem C2_verifier:
  "(opens_own_seal P E verificationString k \<and> createPasswordVerifier P E k = Inr c \<longrightarrow>
      verifyPassword P k c = Inr True)
   \<and> (seal_fits P E verificationString k \<longrightarrow> (\<exists>c. createPasswordVerifier P E k = Inr c))
   \<and> (verifyPassword P pw v = Inr True \<longleftrightarrow> decrypt P v pw = Inr verificationString)
   \<and> (\<exists>b. verifyPassword P pw v = Inr b)"
proof (intro conjI impI)
  assume "opens_own_seal P E verificationString k \<and> createPasswordVerifier P E k = Inr c"
  then have "encrypt P E verificationString k = Inr c" "opens_own_seal P E verificationString k"
    by (simp_all add: createPasswordVerifier_def)
  then have "decrypt P c k = Inr (TextDecoder_decode (TextEncoder_encode verificationString))"
    by (rule decrypt_encrypt)
  also have "TextDecoder_decode (TextEncoder_encode verificationString) = verificationString"
    using verificationString_plain by (rule TextDecoder_TextEncoder)
  finally show "verifyPassword P k c = Inr True"
    by (simp add: verifyPassword_def)
next
  assume "seal_fits P E verificationString k"
  then show "\<exists>c. createPasswordVerifier P E k = Inr c"
    unfolding createPasswordVerifier_def by (rule encrypt_fits)
next
  show "verifyPassword P pw v = Inr True \<longleftrightarrow> decrypt P v pw = Inr verificationString"
    by (cases "decrypt P v pw") (simp_all add: verifyPassword_def)
next
  show "\<exists>b. verifyPassword P pw v = Inr b"
    by (cases "decrypt P v pw") (auto simp: verifyPassword_def)
qed

theorem C2_verifier_witness:
  "opens_own_seal ref_platform ref_seal verificationString (js ''master'')
   \<and> seal_fits ref_platform ref_seal verificationString (js ''master'')
   \<and> createPasswordVerifier ref_platform ref_seal (js ''master'')
       = Inr (example_seal ref_seal verificationString)
   \<and> verifyPassword ref_platform (js ''master'') (example_seal ref_seal verificationString)
       = Inr True"
proof -
  have c: "createPasswordVerifier ref_platform ref_seal (js ''master'')
       = Inr (example_seal ref_seal verificationString)"
    unfolding createPasswordVerifier_def
    by (rule example_seal) (simp add: length_verificationString)
  have fits: "seal_fits ref_platform ref_seal verificationString (js ''master'')"
    by (rule ref_seal_fits_short) (simp add: length_verificationString)
  show ?thesis
    using C2_verifier [of ref_platform ref_seal "js ''master''"
        "example_seal ref_seal verificationString"]
      ref_platform_opens [of ref_seal verificationString "js ''master''"] c fits
    by blast
qed

section \<open>Properties of the vault\<close>

lemma findIndex_None: "findIndex f xs = None \<longleftrightarrow> \<not> list_ex f xs"
  by (induction xs) auto

lemma findIndex_Some:
  "findIndex f xs = Some n \<Longrightarrow> n < length xs \<and> f (xs ! n) \<and> (\<forall>m<n. \<not> f (xs ! m))"
proof (induction xs arbitrary: n)
  case Nil
  then show ?case by simp
next
  case (Cons x xs)
  show ?case
  proof (cases "f x")
    case True
    then show ?thesis using Cons.prems by auto
  next
    case False
    then obtain k where k: "findIndex f xs = Some k" "n = Suc k"
      using Cons.prems by auto
    from Cons.IH [OF k(1)] have ih: "k < length xs" "f (xs ! k)" "\<forall>m<k. \<not> f (xs ! m)"
      by simp_all
    have "\<not> f ((x # xs) ! m)" if "m < Suc k" for m
      using that False ih(3) by (cases m) simp_all
    then show ?thesis using ih(1,2) k(2) by simp
  qed
qed

lemma remove_at_distinct:
  assumes "distinct (map f xs)" and "n < length xs"
  shows "take n xs @ drop (Suc n) xs = filter (\<lambda>p. f p \<noteq> f (xs ! n)) xs"
  using assms
proof (induction xs arbitrary: n)
  case Nil
  then show ?case by simp
next
  case (Cons x xs)
  show ?case
  proof (cases n)
    case 0
    have "f x \<notin> f ` set xs" using Cons.prems(1) by simp
    then have "\<forall>p\<in>set xs. f p \<noteq> f x" by (metis image_eqI)
    then have "filter (\<lambda>p. f p \<noteq> f x) xs = xs" by (rule filter_True)
    then show ?thesis using 0 by simp
  next
    case (Suc k)
    then have k: "k < length xs" using Cons.prems(2) by simp
    then have "f x \<noteq> f (xs ! k)" using Cons.prems(1) by auto
    then show ?thesis using Suc Cons.IH [of k] Cons.prems(1) k by simp
  qed
qed




lemma btoa_loop_nonempty: "bs \<noteq> [] \<Longrightarrow> btoa_loop bs \<noteq> []"
  using btoa_loop_long [of bs] by auto

lemma encrypt_nonempty: "encrypt P E p k = Inr c \<Longrightarrow> c \<noteq> []"
proof -
  have "random_bytes (salt_source E) SALT_LENGTH \<noteq> []"
    using length_random_bytes [of "salt_source E" SALT_LENGTH] by (auto simp: SALT_LENGTH_def)
  then show "encrypt P E p k = Inr c \<Longrightarrow> c \<noteq> []"
    unfolding encrypt_cases by (auto simp: btoa_loop_nonempty split: if_splits)
qed

lemma getPasswords_sealed:
  assumes "encrypt P E (JSON_stringify P ps) k = Inr c"
    and "st ENCRYPTED_DATA = Some c"
    and "reads_back P E ps k"
  shows "getPasswords P st k = Inr ps"
proof -
  have r: "opens_own_seal P E (JSON_stringify P ps) k" "isWellFormed (JSON_stringify P ps)"
    "\<not> startsWith (JSON_stringify P ps) [0xFEFF]"
    "JSON_parse P (JSON_stringify P ps) = Some ps"
    using assms(3) by (simp_all add: reads_back_def)
  have "decrypt P c k = Inr (JSON_stringify P ps)"
    using decrypt_encrypt [OF assms(1) r(1)] TextDecoder_TextEncoder [OF r(2,3)] by simp
  then show ?thesis
    using assms(2) r(4) encrypt_nonempty [OF assms(1)]
    by (simp add: getPasswords_def)
qed

text \<open>
  \<open>savePasswords\<close> writes the sealed collection to the data slot, or passes the
  \<open>RangeError\<close> of \<open>encrypt\<close> on and writes nothing; \<open>updatePassword\<close> and
  \<open>deletePassword\<close> do the same once they have found the entry.
\<close>

lemma savePasswords_sealed:
  "encrypt P E (JSON_stringify P ps) k = Inr c \<Longrightarrow>
     savePasswords P E ps k st = (Inr (), st(ENCRYPTED_DATA \<mapsto> c))"
  by (simp add: savePasswords_def)

lemma savePasswords_RangeError:
  "\<not> seal_fits P E (JSON_stringify P ps) k \<Longrightarrow>
     savePasswords P E ps k st = (Inl RangeError, st)"
  by (simp add: savePasswords_def encrypt_RangeError)


lemma deletePassword_found:
  assumes "getPasswords P st k = Inr ps"
    and "findIndex (\<lambda>p. entry_id p = i) ps = Some n"
  shows "encrypt P E (JSON_stringify P (take n ps @ drop (Suc n) ps)) k = Inr c \<Longrightarrow>
           deletePassword P E i k st = (Inr True, st(ENCRYPTED_DATA \<mapsto> c))"
    and "\<not> seal_fits P E (JSON_stringify P (take n ps @ drop (Suc n) ps)) k \<Longrightarrow>
           deletePassword P E i k st = (Inl RangeError, st)"
proof -
  show "deletePassword P E i k st = (Inr True, st(ENCRYPTED_DATA \<mapsto> c))"
    if "encrypt P E (JSON_stringify P (take n ps @ drop (Suc n) ps)) k = Inr c"
    using assms savePasswords_sealed [OF that, of st]
    by (simp add: deletePassword_def Let_def)
  show "deletePassword P E i k st = (Inl RangeError, st)"
    if "\<not> seal_fits P E (JSON_stringify P (take n ps @ drop (Suc n) ps)) k"
    using assms savePasswords_RangeError [OF that, of st]
    by (simp add: deletePassword_def Let_def)
qed

lemma initializeApp_sealed:
  assumes "createPasswordVerifier P E1 k = Inr verifier"
    and "encrypt P E2 (JSON_stringify P []) k = Inr encryptedData"
  shows "initializeApp P E1 E2 k st =
     (Inr (),
      st(PASSWORD_VERIFIER \<mapsto> verifier, ENCRYPTED_DATA \<mapsto> encryptedData,
         IS_INITIALIZED \<mapsto> js ''true''))"
  using assms by (simp add: initializeApp_def Let_def)

subsection \<open>The example vault\<close>

lemmas ref_json =
  ref_platform_def ref_parse_def ref_collections_def ref_stringify_def json_entry_def
  json_member_def json_optional_def json_string_def mail_entry_def shop_entry_def js_def

lemma ref_reads_back:
  "reads_back ref_platform E [] k"
  "reads_back ref_platform E [shop_entry] k"
  "reads_back ref_platform E [mail_entry, shop_entry] k"
  "reads_back ref_platform E [mail_entry, updated_shop_entry] k"
  unfolding reads_back_def
  by (simp_all add: ref_platform_opens)
     (simp_all add: ref_json updated_shop_entry_def high_surrogate_def low_surrogate_def)

lemma storage_keys_distinct:
  "PASSWORD_VERIFIER \<noteq> ENCRYPTED_DATA" "ENCRYPTED_DATA \<noteq> IS_INITIALIZED"
  "PASSWORD_VERIFIER \<noteq> IS_INITIALIZED"
  by (simp_all add: PASSWORD_VERIFIER_def ENCRYPTED_DATA_def IS_INITIALIZED_def)

text \<open>The example collections are short enough for \<open>encrypt\<close> on the reference platform.\<close>

lemma ref_sealed:
  "encrypt ref_platform E (JSON_stringify ref_platform []) (js ''master'')
     = Inr (example_seal E (ref_stringify []))"
  "encrypt ref_platform E (JSON_stringify ref_platform [shop_entry]) (js ''master'')
     = Inr (example_seal E (ref_stringify [shop_entry]))"
  "encrypt ref_platform E (JSON_stringify ref_platform [mail_entry, shop_entry]) (js ''master'')
     = Inr (example_seal E (ref_stringify [mail_entry, shop_entry]))"
  "encrypt ref_platform E (JSON_stringify ref_platform [mail_entry, updated_shop_entry])
       (js ''master'')
     = Inr (example_seal E (ref_stringify [mail_entry, updated_shop_entry]))"
proof -
  have j: "JSON_stringify ref_platform = ref_stringify" by (simp add: ref_platform_def)
  show "encrypt ref_platform E (JSON_stringify ref_platform []) (js ''master'')
     = Inr (example_seal E (ref_stringify []))"
    unfolding j by (rule example_seal) (simp add: ref_json)
  show "encrypt ref_platform E (JSON_stringify ref_platform [shop_entry]) (js ''master'')
     = Inr (example_seal E (ref_stringify [shop_entry]))"
    unfolding j by (rule example_seal) (simp add: ref_json)
  show "encrypt ref_platform E (JSON_stringify ref_platform [mail_entry, shop_entry])
       (js ''master'')
     = Inr (example_seal E (ref_stringify [mail_entry, shop_entry]))"
    unfolding j by (rule example_seal) (simp add: ref_json)
  show "encrypt ref_platform E (JSON_stringify ref_platform [mail_entry, updated_shop_entry])
       (js ''master'')
     = Inr (example_seal E (ref_stringify [mail_entry, updated_shop_entry]))"
    unfolding j by (rule example_seal) (simp add: ref_json updated_shop_entry_def)
qed

lemma ref_fits:
  "seal_fits ref_platform E (JSON_stringify ref_platform []) k"
  "seal_fits ref_platform E (JSON_stringify ref_platform [shop_entry]) k"
  "seal_fits ref_platform E (JSON_stringify ref_platform [mail_entry, updated_shop_entry]) k"
  "seal_fits ref_platform E verificationString k"
  by (rule ref_seal_fits_short,
      simp add: ref_json updated_shop_entry_def verificationString_def)+

lemma vault_store_read:
  "getPasswords ref_platform vault_store (js ''master'') = Inr [mail_entry, shop_entry]"
proof (rule getPasswords_sealed [where E = ref_seal2])
  show "encrypt ref_platform ref_seal2 (JSON_stringify ref_platform [mail_entry, shop_entry])
          (js ''master'')
        = Inr (example_seal ref_seal2 (ref_stringify [mail_entry, shop_entry]))"
    by (rule ref_sealed)
  show "vault_store ENCRYPTED_DATA =
      Some (example_seal ref_seal2 (ref_stringify [mail_entry, shop_entry]))"
    using storage_keys_distinct by (simp add: vault_store_def)
  show "reads_back ref_platform ref_seal2 [mail_entry, shop_entry] (js ''master'')"
    by (rule ref_reads_back)
qed



lemmas ref_entries = mail_entry_def shop_entry_def js_def

lemma truncated_decrypt: "decrypt ref_platform (js ''AAAA'') (js ''master'') = Inl OperationError"
  by (simp add: decrypt_def atob_bytes_def js_def ascii_whitespace_def strip_padding_def
        base64_alphabet_def SALT_LENGTH_def IV_LENGTH_def deriveKey_def ref_platform_def
        toy_decrypt_def Let_def)

lemma garbled_sealed:
  "encrypt ref_platform ref_seal2 (js ''{'') (js ''master'')
     = Inr (example_seal ref_seal2 (js ''{''))"
  by (rule example_seal) (simp add: js_def)

lemma garbled_decrypt:
  "decrypt ref_platform (example_seal ref_seal2 (js ''{'')) (js ''master'') = Inr (js ''{'')"
proof -
  have "isWellFormed (js ''{'')" "\<not> startsWith (js ''{'') [0xFEFF]"
    by (simp_all add: js_def high_surrogate_def low_surrogate_def)
  then show ?thesis
    using decrypt_encrypt [OF garbled_sealed ref_platform_opens]
      TextDecoder_TextEncoder [of "js ''{''"]
    by simp
qed

lemma garbled_parse: "JSON_parse ref_platform (js ''{'') = None"
  by (simp add: ref_json)

subsection \<open>updatePassword\<close>




subsection \<open>deletePassword\<close>

text \<open>
  Claim C4. Let \<open>getPasswords\<close> read the collection \<open>ps\<close> from the store. If no entry
  of \<open>ps\<close> has the id, \<open>deletePassword\<close> returns false and leaves the store as it is.
  Otherwise let \<open>qs\<close> be \<open>ps\<close> without the first entry that has the id, every other
  entry kept in place and order; when the ids of \<open>ps\<close> are distinct, \<open>qs\<close> is \<open>ps\<close>
  without the entries of that id. \<open>deletePassword\<close> returns true and writes to the data
  slot, and to no other, the freshly sealed \<open>qs\<close>; and on a platform that reads the saved
  collection back, \<open>getPasswords\<close> then returns \<open>qs\<close>. This supposes that \<open>qs\<close> is
  within the size that \<open>encrypt\<close> can handle, as it is wherever the longer \<open>ps\<close> was
  when it was saved.
\<close>

theorem C4_delete:
  assumes "getPasswords P st k = Inr ps"
  shows "(\<not> list_ex (\<lambda>p. entry_id p = i) ps \<longrightarrow>
           deletePassword P E i k st = (Inr False, st))
    \<and> (list_ex (\<lambda>p. entry_id p = i) ps \<longrightarrow>
         (\<exists>n qs. n < length ps \<and> entry_id (ps ! n) = i \<and> (\<forall>m<n. entry_id (ps ! m) \<noteq> i)
            \<and> qs = take n ps @ drop (Suc n) ps
            \<and> (distinct (map entry_id ps) \<longrightarrow> qs = filter (\<lambda>p. entry_id p \<noteq> i) ps)
            \<and> (seal_fits P E (JSON_stringify P qs) k \<longrightarrow>
                 (\<exists>c. encrypt P E (JSON_stringify P qs) k = Inr c
                    \<and> deletePassword P E i k st = (Inr True, st(ENCRYPTED_DATA \<mapsto> c))
                    \<and> (reads_back P E qs k \<longrightarrow>
                         getPasswords P (snd (deletePassword P E i k st)) k = Inr qs)))))"
proof (intro conjI impI)
  assume "\<not> list_ex (\<lambda>p. entry_id p = i) ps"
  then have "findIndex (\<lambda>p. entry_id p = i) ps = None" by (simp add: findIndex_None)
  then show "deletePassword P E i k st = (Inr False, st)"
    using assms by (simp add: deletePassword_def)
next
  assume "list_ex (\<lambda>p. entry_id p = i) ps"
  then obtain n where n: "findIndex (\<lambda>p. entry_id p = i) ps = Some n"
    using findIndex_None [of "\<lambda>p. entry_id p = i" ps] by auto
  note at = findIndex_Some [OF n]
  define qs where "qs = take n ps @ drop (Suc n) ps"
  note run = deletePassword_found(1) [OF assms n, where E = E, folded qs_def]
  have dist: "qs = filter (\<lambda>p. entry_id p \<noteq> i) ps" if "distinct (map entry_id ps)"
    unfolding qs_def using remove_at_distinct [OF that, of n] at by simp
  have fits: "\<exists>c. encrypt P E (JSON_stringify P qs) k = Inr c
                    \<and> deletePassword P E i k st = (Inr True, st(ENCRYPTED_DATA \<mapsto> c))
                    \<and> (reads_back P E qs k \<longrightarrow>
                         getPasswords P (snd (deletePassword P E i k st)) k = Inr qs)"
    if "seal_fits P E (JSON_stringify P qs) k"
  proof -
    from encrypt_fits [OF that] obtain c
      where c: "encrypt P E (JSON_stringify P qs) k = Inr c" ..
    note r = run [OF c]
    have "getPasswords P (snd (deletePassword P E i k st)) k = Inr qs"
      if "reads_back P E qs k"
      unfolding r snd_conv using c _ that by (rule getPasswords_sealed) simp
    with c r show ?thesis by blast
  qed
  show "\<exists>n qs. n < length ps \<and> entry_id (ps ! n) = i \<and> (\<forall>m<n. entry_id (ps ! m) \<noteq> i)
            \<and> qs = take n ps @ drop (Suc n) ps
            \<and> (distinct (map entry_id ps) \<longrightarrow> qs = filter (\<lambda>p. entry_id p \<noteq> i) ps)
            \<and> (seal_fits P E (JSON_stringify P qs) k \<longrightarrow>
                 (\<exists>c. encrypt P E (JSON_stringify P qs) k = Inr c
                    \<and> deletePassword P E i k st = (Inr True, st(ENCRYPTED_DATA \<mapsto> c))
                    \<and> (reads_back P E qs k \<longrightarrow>
                         getPasswords P (snd (deletePassword P E i k st)) k = Inr qs)))"
    using at dist fits qs_def by (intro exI [of _ n] exI [of _ qs]) blast
qed

theorem C4_delete_witness:
  "getPasswords ref_platform vault_store (js ''master'') = Inr [mail_entry, shop_entry]
   \<and> list_ex (\<lambda>p. entry_id p = js ''e1'') [mail_entry, shop_entry]
   \<and> distinct (map entry_id [mail_entry, shop_entry])
   \<and> seal_fits ref_platform ref_seal (JSON_stringify ref_platform [shop_entry]) (js ''master'')
   \<and> deletePassword ref_platform ref_seal (js ''e1'') (js ''master'') vault_store
      = (Inr True,
         vault_store(ENCRYPTED_DATA \<mapsto> example_seal ref_seal (ref_stringify [shop_entry])))
   \<and> reads_back ref_platform ref_seal [shop_entry] (js ''master'')
   \<and> getPasswords ref_platform
        (snd (deletePassword ref_platform ref_seal (js ''e1'') (js ''master'') vault_store))
        (js ''master'') = Inr [shop_entry]
   \<and> \<not> list_ex (\<lambda>p. entry_id p = js ''e9'') [mail_entry, shop_entry]
   \<and> deletePassword ref_platform ref_seal (js ''e9'') (js ''master'') vault_store
      = (Inr False, vault_store)"
proof -
  note r = vault_store_read
  have a: "list_ex (\<lambda>p. entry_id p = js ''e1'') [mail_entry, shop_entry]"
    and b: "\<not> list_ex (\<lambda>p. entry_id p = js ''e9'') [mail_entry, shop_entry]"
    and d: "distinct (map entry_id [mail_entry, shop_entry])"
    by (simp_all add: ref_entries)
  note fits = ref_fits(2) [of ref_seal "js ''master''"]
  note sealed = ref_sealed(2) [of ref_seal]
  note rb = ref_reads_back(2) [of ref_seal "js ''master''"]
  from C4_delete [OF r, of "js ''e1''" ref_seal] a
  obtain n qs where n: "n < length [mail_entry, shop_entry]"
      "entry_id ([mail_entry, shop_entry] ! n) = js ''e1''"
    and qs: "qs = take n [mail_entry, shop_entry] @ drop (Suc n) [mail_entry, shop_entry]"
    and run: "seal_fits ref_platform ref_seal (JSON_stringify ref_platform qs) (js ''master'') \<longrightarrow>
        (\<exists>c. encrypt ref_platform ref_seal (JSON_stringify ref_platform qs) (js ''master'') = Inr c
           \<and> deletePassword ref_platform ref_seal (js ''e1'') (js ''master'') vault_store
              = (Inr True, vault_store(ENCRYPTED_DATA \<mapsto> c))
           \<and> (reads_back ref_platform ref_seal qs (js ''master'') \<longrightarrow>
               getPasswords ref_platform
                 (snd (deletePassword ref_platform ref_seal (js ''e1'') (js ''master'')
                        vault_store))
                 (js ''master'') = Inr qs))"
    by blast
  have n0: "n = 0"
    using n by (cases n) (simp_all add: ref_entries)
  have q: "qs = [shop_entry]" unfolding qs n0 by simp
  from run [unfolded q] fits sealed rb
  have present: "deletePassword ref_platform ref_seal (js ''e1'') (js ''master'') vault_store
      = (Inr True,
         vault_store(ENCRYPTED_DATA \<mapsto> example_seal ref_seal (ref_stringify [shop_entry])))"
    "getPasswords ref_platform
        (snd (deletePassword ref_platform ref_seal (js ''e1'') (js ''master'') vault_store))
        (js ''master'') = Inr [shop_entry]"
    by auto
  from C4_delete [OF r, of "js ''e9''" ref_seal] b
  have absent: "deletePassword ref_platform ref_seal (js ''e9'') (js ''master'') vault_store
      = (Inr False, vault_store)"
    by blast
  show ?thesis
    using r a b d fits rb present absent by (intro conjI)
qed

subsection \<open>initializeApp\<close>

text \<open>
  Claim C5, as amended. \<open>initializeApp\<close> does not look at the store it is given: in every
  state it succeeds, writes a fresh verifier, a sealed empty collection and \<open>true\<close> to the
  three slots, over whatever they held, and leaves the vault initialized. The verifier it
  wrote accepts the password, and the collection it wrote reads back as empty, on a
  platform whose AES-GCM and JSON give back what they were given. The two texts that it
  seals are the verification string and the empty collection (72 and 46 bytes once
  sealed with AES-GCM), which are within the size that \<open>encrypt\<close> can handle.
\<close>

theorem C5_initialize:
  "seal_fits P E1 verificationString k \<and> seal_fits P E2 (JSON_stringify P []) k \<longrightarrow>
     (\<exists>verifier encryptedData.
        createPasswordVerifier P E1 k = Inr verifier
        \<and> encrypt P E2 (JSON_stringify P []) k = Inr encryptedData
        \<and> initializeApp P E1 E2 k st =
            (Inr (),
             st(PASSWORD_VERIFIER \<mapsto> verifier,
                ENCRYPTED_DATA \<mapsto> encryptedData,
                IS_INITIALIZED \<mapsto> js ''true''))
        \<and> isAppInitialized True (snd (initializeApp P E1 E2 k st))
        \<and> snd (initializeApp P E1 E2 k st) PASSWORD_VERIFIER = Some verifier
        \<and> (opens_own_seal P E1 verificationString k \<longrightarrow>
             verifyPassword P k verifier = Inr True)
        \<and> (reads_back P E2 [] k \<longrightarrow>
             getPasswords P (snd (initializeApp P E1 E2 k st)) k = Inr []))"
proof
  assume "seal_fits P E1 verificationString k \<and> seal_fits P E2 (JSON_stringify P []) k"
  then obtain verifier encryptedData
    where v: "encrypt P E1 verificationString k = Inr verifier"
      and d: "encrypt P E2 (JSON_stringify P []) k = Inr encryptedData"
    using encrypt_fits [of P E1 verificationString k]
      encrypt_fits [of P E2 "JSON_stringify P []" k] by blast
  have cv: "createPasswordVerifier P E1 k = Inr verifier"
    using v by (simp add: createPasswordVerifier_def)
  note run = initializeApp_sealed [OF cv d, of st]
  have init: "isAppInitialized True (snd (initializeApp P E1 E2 k st))"
    unfolding run by (simp add: isAppInitialized_def)
  have slots: "snd (initializeApp P E1 E2 k st) PASSWORD_VERIFIER = Some verifier"
      "snd (initializeApp P E1 E2 k st) ENCRYPTED_DATA = Some encryptedData"
    unfolding run using storage_keys_distinct by simp_all
  have verifies: "verifyPassword P k verifier = Inr True"
    if "opens_own_seal P E1 verificationString k"
  proof -
    have "decrypt P verifier k = Inr verificationString"
      using decrypt_encrypt [OF v that] TextDecoder_TextEncoder [OF verificationString_plain]
      by simp
    then show ?thesis by (simp add: verifyPassword_def)
  qed
  have reads: "getPasswords P (snd (initializeApp P E1 E2 k st)) k = Inr []"
    if "reads_back P E2 [] k"
    using d slots(2) that by (rule getPasswords_sealed)
  show "\<exists>verifier encryptedData.
        createPasswordVerifier P E1 k = Inr verifier
        \<and> encrypt P E2 (JSON_stringify P []) k = Inr encryptedData
        \<and> initializeApp P E1 E2 k st =
            (Inr (),
             st(PASSWORD_VERIFIER \<mapsto> verifier,
                ENCRYPTED_DATA \<mapsto> encryptedData,
                IS_INITIALIZED \<mapsto> js ''true''))
        \<and> isAppInitialized True (snd (initializeApp P E1 E2 k st))
        \<and> snd (initializeApp P E1 E2 k st) PASSWORD_VERIFIER = Some verifier
        \<and> (opens_own_seal P E1 verificationString k \<longrightarrow>
             verifyPassword P k verifier = Inr True)
        \<and> (reads_back P E2 [] k \<longrightarrow>
             getPasswords P (snd (initializeApp P E1 E2 k st)) k = Inr [])"
    using cv d run init slots(1) verifies reads
    by (intro exI [of _ verifier] exI [of _ encryptedData]) blast
qed

theorem C5_initialize_witness:
  "seal_fits ref_platform ref_seal verificationString (js ''master'')
   \<and> seal_fits ref_platform ref_seal2 (JSON_stringify ref_platform []) (js ''master'')
   \<and> initializeApp ref_platform ref_seal ref_seal2 (js ''master'') (\<lambda>key. None) =
       (Inr (),
        (\<lambda>key. None)
          (PASSWORD_VERIFIER \<mapsto> example_seal ref_seal verificationString,
           ENCRYPTED_DATA \<mapsto> example_seal ref_seal2 (ref_stringify []),
           IS_INITIALIZED \<mapsto> js ''true''))
   \<and> isAppInitialized True
        (snd (initializeApp ref_platform ref_seal ref_seal2 (js ''master'') (\<lambda>key. None)))
   \<and> verifyPassword ref_platform (js ''master'') (example_seal ref_seal verificationString)
       = Inr True
   \<and> getPasswords ref_platform
        (snd (initializeApp ref_platform ref_seal ref_seal2 (js ''master'') (\<lambda>key. None)))
        (js ''master'') = Inr []"
proof -
  note fits = ref_fits(4) [of ref_seal "js ''master''"] ref_fits(1) [of ref_seal2 "js ''master''"]
  have v: "createPasswordVerifier ref_platform ref_seal (js ''master'')
       = Inr (example_seal ref_seal verificationString)"
    unfolding createPasswordVerifier_def
    by (rule example_seal) (simp add: length_verificationString)
  note d = ref_sealed(1) [of ref_seal2]
  note opens = ref_platform_opens [of ref_seal verificationString "js ''master''"]
  note rb = ref_reads_back(1) [of ref_seal2 "js ''master''"]
  from C5_initialize [of ref_platform ref_seal "js ''master''" ref_seal2 "\<lambda>key. None"]
    fits v d opens rb
  have "initializeApp ref_platform ref_seal ref_seal2 (js ''master'') (\<lambda>key. None) =
       (Inr (),
        (\<lambda>key. None)
          (PASSWORD_VERIFIER \<mapsto> example_seal ref_seal verificationString,
           ENCRYPTED_DATA \<mapsto> example_seal ref_seal2 (ref_stringify []),
           IS_INITIALIZED \<mapsto> js ''true''))"
    "isAppInitialized True
        (snd (initializeApp ref_platform ref_seal ref_seal2 (js ''master'') (\<lambda>key. None)))"
    "verifyPassword ref_platform (js ''master'') (example_seal ref_seal verificationString)
       = Inr True"
    "getPasswords ref_platform
        (snd (initializeApp ref_platform ref_seal ref_seal2 (js ''master'') (\<lambda>key. None)))
        (js ''master'') = Inr []"
    by auto
  with fits show ?thesis by (intro conjI)
qed

text \<open>
  The claim as stated fails on a vault that is already initialized and holds two entries:
  \<open>initializeApp\<close> succeeds all the same, and afterwards the collection is empty.
\<close>

theorem C5_counterexample:
  "isAppInitialized True vault_store
   \<and> getPasswords ref_platform vault_store (js ''master'') = Inr [mail_entry, shop_entry]
   \<and> fst (initializeApp ref_platform ref_seal ref_seal2 (js ''master'') vault_store) = Inr ()
   \<and> getPasswords ref_platform
        (snd (initializeApp ref_platform ref_seal ref_seal2 (js ''master'') vault_store))
        (js ''master'') = Inr []"
proof -
  have i: "isAppInitialized True vault_store"
    by (simp add: isAppInitialized_def vault_store_def)
  have v: "createPasswordVerifier ref_platform ref_seal (js ''master'')
       = Inr (example_seal ref_seal verificationString)"
    unfolding createPasswordVerifier_def
    by (rule example_seal) (simp add: length_verificationString)
  note d = ref_sealed(1) [of ref_seal2]
  note run = initializeApp_sealed [OF v d, of vault_store]
  have "getPasswords ref_platform
        (snd (initializeApp ref_platform ref_seal ref_seal2 (js ''master'') vault_store))
        (js ''master'') = Inr []"
  proof (rule getPasswords_sealed [OF d])
    show "snd (initializeApp ref_platform ref_seal ref_seal2 (js ''master'') vault_store)
            ENCRYPTED_DATA = Some (example_seal ref_seal2 (ref_stringify []))"
      unfolding run using storage_keys_distinct by simp
    show "reads_back ref_platform ref_seal2 [] (js ''master'')"
      by (rule ref_reads_back)
  qed
  moreover have "fst (initializeApp ref_platform ref_seal ref_seal2 (js ''master'') vault_store)
      = Inr ()"
    unfolding run by simp
  ultimately show ?thesis using i vault_store_read by (intro conjI)
qed

subsection \<open>getPasswords\<close>

text \<open>
  Claim C6, as amended. \<open>getPasswords\<close> fails with one error only, its own: whatever
  \<open>decrypt\<close> throws (for text that is not base64, a wrong password or an altered
  ciphertext) and the syntax error of \<open>JSON.parse\<close> are caught and replaced by it.
\<close>

theorem C6_one_error:
  "(getPasswords P st k = Inl e \<longrightarrow> e = DecryptFailed)
   \<and> (st ENCRYPTED_DATA = Some d \<and> d \<noteq> [] \<and> decrypt P d k = Inl e' \<longrightarrow>
        getPasswords P st k = Inl DecryptFailed)
   \<and> (st ENCRYPTED_DATA = Some d \<and> d \<noteq> [] \<and> decrypt P d k = Inr t \<and> JSON_parse P t = None \<longrightarrow>
        getPasswords P st k = Inl DecryptFailed)"
proof (intro conjI impI)
  assume "getPasswords P st k = Inl e"
  then show "e = DecryptFailed"
    by (auto simp: getPasswords_def split: option.splits sum.splits if_splits)
next
  assume "st ENCRYPTED_DATA = Some d \<and> d \<noteq> [] \<and> decrypt P d k = Inl e'"
  then show "getPasswords P st k = Inl DecryptFailed"
    by (simp add: getPasswords_def)
next
  assume "st ENCRYPTED_DATA = Some d \<and> d \<noteq> [] \<and> decrypt P d k = Inr t \<and> JSON_parse P t = None"
  then show "getPasswords P st k = Inl DecryptFailed"
    by (simp add: getPasswords_def)
qed

theorem C6_one_error_witness:
  "truncated_store ENCRYPTED_DATA = Some (js ''AAAA'') \<and> js ''AAAA'' \<noteq> []
   \<and> decrypt ref_platform (js ''AAAA'') (js ''master'') = Inl OperationError
   \<and> getPasswords ref_platform truncated_store (js ''master'') = Inl DecryptFailed"
proof -
  have t: "truncated_store ENCRYPTED_DATA = Some (js ''AAAA'')"
    by (simp add: truncated_store_def)
  have ne: "js ''AAAA'' \<noteq> []" by (simp add: js_def)
  show ?thesis
    using C6_one_error [of ref_platform truncated_store "js ''master''" _ "js ''AAAA''"
        OperationError] t ne truncated_decrypt
    by simp
qed

text \<open>
  The claim as stated fails: a data slot whose ciphertext is too short for its tag, where
  \<open>decrypt\<close> throws \<open>OperationError\<close>, and a data slot that decrypts to the text \<open>{\<close>,
  which is not JSON, make \<open>getPasswords\<close> fail with the same error, and the error that
  \<open>decrypt\<close> threw does not reach the caller.
\<close>

theorem C6_counterexample:
  "truncated_store ENCRYPTED_DATA = Some (js ''AAAA'')
   \<and> decrypt ref_platform (js ''AAAA'') (js ''master'') = Inl OperationError
   \<and> getPasswords ref_platform truncated_store (js ''master'') = Inl DecryptFailed
   \<and> encrypt ref_platform ref_seal2 (js ''{'') (js ''master'')
        = Inr (example_seal ref_seal2 (js ''{''))
   \<and> garbled_store ENCRYPTED_DATA = Some (example_seal ref_seal2 (js ''{''))
   \<and> decrypt ref_platform (example_seal ref_seal2 (js ''{'')) (js ''master'') = Inr (js ''{'')
   \<and> JSON_parse ref_platform (js ''{'') = None
   \<and> getPasswords ref_platform garbled_store (js ''master'') = Inl DecryptFailed"
proof -
  have t: "truncated_store ENCRYPTED_DATA = Some (js ''AAAA'')"
    by (simp add: truncated_store_def)
  have g: "garbled_store ENCRYPTED_DATA = Some (example_seal ref_seal2 (js ''{''))"
    by (simp add: garbled_store_def)
  have "js ''AAAA'' \<noteq> []" by (simp add: js_def)
  then have 1: "getPasswords ref_platform truncated_store (js ''master'') = Inl DecryptFailed"
    by (simp add: getPasswords_def t truncated_decrypt)
  have 2: "getPasswords ref_platform garbled_store (js ''master'') = Inl DecryptFailed"
    using encrypt_nonempty [OF garbled_sealed]
    by (simp add: getPasswords_def g garbled_decrypt garbled_parse)
  show ?thesis
    using t g 1 2 truncated_decrypt garbled_sealed garbled_decrypt garbled_parse
    by (intro conjI)
qed

subsection \<open>searchPasswords\<close>



end
